theory Spec2Isabelle
  imports Complex_Main "HOL-Library.Word"
begin

unbundle bit_operations_syntax

section \<open>Data model of pcf2go\<close>

text \<open>
  The typedefs of \<^verbatim>\<open>src/util/pcf2go.cpp\<close>. The C type \<^verbatim>\<open>int\<close> is 32 bits wide on
  every target of the program and is modelled by \<open>int32\<close> as well.
\<close>

type_synonym byte8 = "8 word"
type_synonym int16 = "16 word"
type_synonym uint16 = "16 word"
type_synonym int32 = "32 word"
type_synonym uint32 = "32 word"

text \<open>
  The process ends in one of three ways other than returning from \<^verbatim>\<open>main\<close>:
  \<^verbatim>\<open>error_exit(str)\<close>, \<^verbatim>\<open>error_invalid_exit(str)\<close>, and the failing branch of
  \<^verbatim>\<open>check_int32_min(indent, str, value, min)\<close>. Each prints a message and calls
  \<^verbatim>\<open>exit(1)\<close>; the model returns the matching error value.
\<close>

datatype error =
    ErrorExit string
  | ErrorInvalidExit string
  | CheckInt32Min string int32 int32
  | Undefined string

text \<open>
  \<open>Undefined\<close> is not an exit of the program: it marks a run that reaches an operation
  whose result C++ leaves undefined (an access past the end of a buffer, the conversion to
  \<^verbatim>\<open>int\<close> of a \<^verbatim>\<open>double\<close> that is infinite, not a number or out of range). The model
  stops there and promises nothing about such a run.
\<close>

definition bindE :: "error + 'a \<Rightarrow> ('a \<Rightarrow> error + 'b) \<Rightarrow> error + 'b" where
  "bindE r f = (case r of Inl e \<Rightarrow> Inl e | Inr x \<Rightarrow> f x)"

text \<open>
  \<^verbatim>\<open>struct format32\<close>: the bit fields (\<^verbatim>\<open>dummy\<close> is always 0 and is left out).
\<close>

record format32 =
  fmt_id :: "24 word"
  fmt_scan :: "2 word"
  fmt_bit :: "1 word"
  fmt_byte :: "1 word"
  fmt_glyph :: "2 word"

definition is_little_endian :: "format32 \<Rightarrow> bool" where
  "is_little_endian f = (fmt_byte f = 0)"

definition PCF_DEFAULT_FORMAT :: "24 word" where
  "PCF_DEFAULT_FORMAT = 0"

definition PCF_COMPRESSED_METRICS :: "24 word" where
  "PCF_COMPRESSED_METRICS = 1"

definition BDF_format :: format32 where
  "BDF_format = \<lparr>fmt_id = PCF_DEFAULT_FORMAT, fmt_scan = 0, fmt_bit = 1, fmt_byte = 1, fmt_glyph = 0\<rparr>"

text \<open>
  \<^verbatim>\<open>struct metric_t\<close>. \<^verbatim>\<open>bitmaps\<close> points into the shared bitmap buffer: the model keeps
  the offset, and \<open>None\<close> for the null pointer. \<^verbatim>\<open>glyphName.s\<close> is \<open>None\<close> when null.
\<close>

record metric_t =
  leftSideBearing :: int16
  rightSideBearing :: int16
  characterWidth :: int16
  ascent :: int16
  descent :: int16
  attributes :: uint16
  bitmaps :: "nat option"
  swidth :: int32
  glyphName :: "string option"

text \<open>
  \<^verbatim>\<open>int16 widthBits(void) { return rightSideBearing - leftSideBearing; }\<close> and
  \<^verbatim>\<open>int16 height(void) { return ascent + descent; }\<close>: the operands are promoted to
  \<^verbatim>\<open>int\<close>, and the result is converted back to \<^verbatim>\<open>int16\<close>.
\<close>

definition widthBits :: "metric_t \<Rightarrow> int16" where
  "widthBits m = word_of_int (sint (rightSideBearing m) - sint (leftSideBearing m))"

definition height :: "metric_t \<Rightarrow> int16" where
  "height m = word_of_int (sint (ascent m) + sint (descent m))"

section \<open>The byte cursor\<close>

text \<open>
  The globals the readers share: \<^verbatim>\<open>ifp\<close> (the bytes of the input stream not read yet),
  \<^verbatim>\<open>read_bytes\<close> and \<^verbatim>\<open>format\<close>, the format of the section being read.
  \<^verbatim>\<open>read_bytes\<close> is a \<^verbatim>\<open>long\<close>; it counts one per byte read and is modelled by an
  unbounded integer.
\<close>

record globals =
  ifp :: "byte8 list"
  read_bytes :: int
  format :: format32

definition read8 :: "globals \<Rightarrow> error + byte8 \<times> globals" where
  "read8 g =
     (case ifp g of
        [] \<Rightarrow> Inl (ErrorExit ''unexpected eof'')
      | a # rest \<Rightarrow> Inr (a, g\<lparr>ifp := rest, read_bytes := read_bytes g + 1\<rparr>))"

definition read_bool8 :: "globals \<Rightarrow> error + bool \<times> globals" where
  "read_bool8 g = bindE (read8 g) (\<lambda>(a, g1). Inr (a \<noteq> 0, g1))"

definition read_uint8 :: "globals \<Rightarrow> error + byte8 \<times> globals" where
  "read_uint8 g = read8 g"

definition make_int16 :: "byte8 \<Rightarrow> byte8 \<Rightarrow> int32" where
  "make_int16 a b = push_bit 8 (ucast a) OR ucast b"

definition read_int16_big :: "globals \<Rightarrow> error + int32 \<times> globals" where
  "read_int16_big g =
     bindE (read8 g) (\<lambda>(a, g1).
     bindE (read8 g1) (\<lambda>(b, g2).
     Inr (make_int16 a b, g2)))"

definition read_int16_little :: "globals \<Rightarrow> error + int32 \<times> globals" where
  "read_int16_little g =
     bindE (read8 g) (\<lambda>(a, g1).
     bindE (read8 g1) (\<lambda>(b, g2).
     Inr (make_int16 b a, g2)))"

definition read_int16 :: "globals \<Rightarrow> error + int32 \<times> globals" where
  "read_int16 g =
     (if is_little_endian (format g) then read_int16_little g else read_int16_big g)"

definition make_int32 :: "byte8 \<Rightarrow> byte8 \<Rightarrow> byte8 \<Rightarrow> byte8 \<Rightarrow> int32" where
  "make_int32 a b c d =
     push_bit 24 (ucast a) OR push_bit 16 (ucast b) OR push_bit 8 (ucast c) OR ucast d"

definition read_int32_big :: "globals \<Rightarrow> error + int32 \<times> globals" where
  "read_int32_big g =
     bindE (read8 g) (\<lambda>(a, g1).
     bindE (read8 g1) (\<lambda>(b, g2).
     bindE (read8 g2) (\<lambda>(c, g3).
     bindE (read8 g3) (\<lambda>(d, g4).
     Inr (make_int32 a b c d, g4)))))"

definition read_int32_little :: "globals \<Rightarrow> error + int32 \<times> globals" where
  "read_int32_little g =
     bindE (read8 g) (\<lambda>(a, g1).
     bindE (read8 g1) (\<lambda>(b, g2).
     bindE (read8 g2) (\<lambda>(c, g3).
     bindE (read8 g3) (\<lambda>(d, g4).
     Inr (make_int32 d c b a, g4)))))"

definition read_int32 :: "globals \<Rightarrow> error + int32 \<times> globals" where
  "read_int32 g =
     (if is_little_endian (format g) then read_int32_little g else read_int32_big g)"

definition read_uint32 :: "globals \<Rightarrow> error + uint32 \<times> globals" where
  "read_uint32 g = read_int32 g"

text \<open>
  \<^verbatim>\<open>read_format32_little\<close>: each bit field keeps the low bits of the shifted word.
\<close>

definition read_format32_little :: "globals \<Rightarrow> error + format32 \<times> globals" where
  "read_format32_little g =
     bindE (read_int32_little g) (\<lambda>(v, g1).
     Inr (\<lparr>fmt_id = ucast (signed_drop_bit 8 v),
           fmt_scan = ucast (signed_drop_bit 4 v),
           fmt_bit = ucast (signed_drop_bit 3 v),
           fmt_byte = ucast (signed_drop_bit 2 v),
           fmt_glyph = ucast v\<rparr>, g1))"

section \<open>Metric records on the wire\<close>

definition read_metric :: "metric_t \<Rightarrow> globals \<Rightarrow> error + metric_t \<times> globals" where
  "read_metric m g =
     bindE (read_int16 g) (\<lambda>(l, g1).
     bindE (read_int16 g1) (\<lambda>(r, g2).
     bindE (read_int16 g2) (\<lambda>(w, g3).
     bindE (read_int16 g3) (\<lambda>(a, g4).
     bindE (read_int16 g4) (\<lambda>(d, g5).
     bindE (read_int16 g5) (\<lambda>(t, g6).
     Inr (m\<lparr>leftSideBearing := ucast l, rightSideBearing := ucast r,
            characterWidth := ucast w, ascent := ucast a, descent := ucast d,
            attributes := ucast t\<rparr>, g6)))))))"

text \<open>
  \<^verbatim>\<open>read_compressed_metric\<close>: \<^verbatim>\<open>(int16)read_uint8() - 0x80\<close> for each of the five
  bearings and extents, then \<^verbatim>\<open>attributes = 0\<close>.
\<close>

definition read_compressed_metric :: "metric_t \<Rightarrow> globals \<Rightarrow> error + metric_t \<times> globals" where
  "read_compressed_metric m g =
     bindE (read_uint8 g) (\<lambda>(l, g1).
     bindE (read_uint8 g1) (\<lambda>(r, g2).
     bindE (read_uint8 g2) (\<lambda>(w, g3).
     bindE (read_uint8 g3) (\<lambda>(a, g4).
     bindE (read_uint8 g4) (\<lambda>(d, g5).
     Inr (m\<lparr>leftSideBearing := ucast l - 0x80, rightSideBearing := ucast r - 0x80,
            characterWidth := ucast w - 0x80, ascent := ucast a - 0x80,
            descent := ucast d - 0x80, attributes := 0\<rparr>, g5))))))"


definition metric_new :: metric_t where
  \<comment> \<open>\<^verbatim>\<open>metric_t(void)\<close> sets the two pointers to null and leaves the other fields
      indeterminate; every one of them is written before it is read, and the model puts 0.\<close>
  "metric_new =
     \<lparr>leftSideBearing = 0, rightSideBearing = 0, characterWidth = 0, ascent = 0,
      descent = 0, attributes = 0, bitmaps = None, swidth = 0, glyphName = None\<rparr>"

text \<open>
  \<^verbatim>\<open>check_int32_min\<close>: exits unless \<^verbatim>\<open>min <= value\<close> (a signed comparison); the
  verbose trace of the other branch is not modelled.
\<close>

definition check_int32_min :: "string \<Rightarrow> int32 \<Rightarrow> int32 \<Rightarrow> error + unit" where
  "check_int32_min str v mn = (if mn \<le>s v then Inr () else Inl (CheckInt32Min str v mn))"

text \<open>
  \<^verbatim>\<open>read_byte8s(mem, size)\<close>: one \<^verbatim>\<open>fread\<close> of \<^verbatim>\<open>size\<close> bytes; a short read exits.
\<close>

definition read_byte8s :: "nat \<Rightarrow> globals \<Rightarrow> error + byte8 list \<times> globals" where
  "read_byte8s n g =
     (if length (ifp g) < n then Inl (ErrorExit ''unexpected eof'')
      else Inr (take n (ifp g), g\<lparr>ifp := drop n (ifp g), read_bytes := read_bytes g + int n\<rparr>))"

text \<open>
  \<^verbatim>\<open>skip(int n)\<close>: \<^verbatim>\<open>for (; 0 < n; n--) read8();\<close>. The counter only moves towards 0, so
  it never overflows and is an integer of the model.
\<close>

function skip :: "int \<Rightarrow> globals \<Rightarrow> error + globals" where
  "skip n g = (if 0 < n then bindE (read8 g) (\<lambda>(a, g1). skip (n - 1) g1) else Inr g)"
  by pat_completeness auto
termination
  by (relation "measure (\<lambda>(n, g). nat n)") auto

declare skip.simps [simp del]

section \<open>The section locator\<close>

text \<open>
  \<^verbatim>\<open>struct table_t\<close>. \<^verbatim>\<open>type\<close> holds whatever 32-bit word the file gave
  (\<^verbatim>\<open>(type32)read_int32_little()\<close>), so it is a word and the section ids are constants.
\<close>

record table_t =
  tbl_type :: int32
  tbl_format :: format32
  tbl_size :: int32
  tbl_offset :: int32

definition PCF_PROPERTIES :: int32 where "PCF_PROPERTIES = push_bit 0 1"
definition PCF_ACCELERATORS :: int32 where "PCF_ACCELERATORS = push_bit 1 1"
definition PCF_METRICS :: int32 where "PCF_METRICS = push_bit 2 1"
definition PCF_BITMAPS :: int32 where "PCF_BITMAPS = push_bit 3 1"
definition PCF_INK_METRICS :: int32 where "PCF_INK_METRICS = push_bit 4 1"
definition PCF_BDF_ENCODINGS :: int32 where "PCF_BDF_ENCODINGS = push_bit 5 1"
definition PCF_SWIDTHS :: int32 where "PCF_SWIDTHS = push_bit 6 1"
definition PCF_GLYPH_NAMES :: int32 where "PCF_GLYPH_NAMES = push_bit 7 1"
definition PCF_BDF_ACCELERATORS :: int32 where "PCF_BDF_ACCELERATORS = push_bit 8 1"

text \<open>
  \<^verbatim>\<open>bool seek(type32 type)\<close>. The loop over \<^verbatim>\<open>tables[0 .. nTables - 1]\<close> is a recursion
  over the list of entries; it stops at the first entry of the type.
  \<^verbatim>\<open>int s = tables[i].offset - read_bytes;\<close> subtracts as \<^verbatim>\<open>long\<close> and converts the
  difference to \<^verbatim>\<open>int\<close>, which keeps its low 32 bits: \<open>signed_take_bit 31\<close>.
\<close>

fun seek :: "table_t list \<Rightarrow> int32 \<Rightarrow> globals \<Rightarrow> error + bool \<times> globals" where
  "seek [] ty g = Inr (False, g)"
| "seek (t # ts) ty g =
     (if tbl_type t = ty then
        (let s = signed_take_bit 31 (sint (tbl_offset t) - read_bytes g) in
         if s < 0 then Inl (ErrorInvalidExit ''seek'')
         else bindE (skip s g) (\<lambda>g1. Inr (True, g1)))
      else seek ts ty g)"

section \<open>Bitmap rows and buffer passes\<close>

text \<open>
  \<^verbatim>\<open>static int16 bytesPerRow(int bits, int nbytes)\<close>. The arithmetic is done in
  \<^verbatim>\<open>int\<close> and the result is converted to \<^verbatim>\<open>int16\<close> on return. \<^verbatim>\<open>>>\<close> on a signed
  \<^verbatim>\<open>int\<close> is the arithmetic shift, \<open>drop_bit\<close> on integers. The parameters are
  integers of the model: the sums do not overflow an \<^verbatim>\<open>int\<close> for
  \<open>bits \<le> 2 ^ 31 - 64\<close>, and beyond that C++ leaves the sum undefined.
\<close>

definition bytesPerRow :: "int \<Rightarrow> int \<Rightarrow> int16" where
  "bytesPerRow bits nbytes =
     word_of_int
       (if nbytes = 1 then drop_bit 3 (bits + 7)
        else if nbytes = 2 then drop_bit 3 (bits + 15) AND NOT 1
        else if nbytes = 4 then drop_bit 3 (bits + 31) AND NOT 3
        else if nbytes = 8 then drop_bit 3 (bits + 63) AND NOT 7
        else 0)"

definition widthBytes :: "metric_t \<Rightarrow> format32 \<Rightarrow> int16" where
  "widthBytes m f = bytesPerRow (sint (widthBits m)) (push_bit (unat (fmt_glyph f)) 1)"

text \<open>
  \<^verbatim>\<open>bit_order_invert(data, size)\<close>, with its table \<^verbatim>\<open>invert[16]\<close>. The three buffer passes
  take a pointer and a size; an index past the end of the buffer is \<open>None\<close>.
\<close>

definition invert :: "byte8 list" where
  "invert = [0, 8, 4, 12, 2, 10, 6, 14, 1, 9, 5, 13, 3, 11, 7, 15]"

definition invert_byte :: "byte8 \<Rightarrow> byte8" where
  "invert_byte b =
     push_bit 4 (invert ! unat (b AND 15)) OR invert ! unat (drop_bit 4 b AND 15)"

function bit_order_invert_from :: "int \<Rightarrow> byte8 list \<Rightarrow> int \<Rightarrow> byte8 list option" where
  "bit_order_invert_from i data n =
     (if i < n then
        (if 0 \<le> i \<and> i < int (length data)
         then bit_order_invert_from (i + 1) (data[nat i := invert_byte (data ! nat i)]) n
         else None)
      else Some data)"
  by pat_completeness auto
termination
  by (relation "measure (\<lambda>(i, data, n). nat (n - i))") auto

declare bit_order_invert_from.simps [simp del]

definition bit_order_invert :: "byte8 list \<Rightarrow> int \<Rightarrow> byte8 list option" where
  "bit_order_invert data n = bit_order_invert_from 0 data n"

function two_byte_swap_from :: "int \<Rightarrow> byte8 list \<Rightarrow> int \<Rightarrow> byte8 list option" where
  "two_byte_swap_from i data n =
     (if i < n then
        (if 0 \<le> i \<and> i + 1 < int (length data)
         then two_byte_swap_from (i + 2)
                (data[nat i := data ! nat (i + 1), nat (i + 1) := data ! nat i]) n
         else None)
      else Some data)"
  by pat_completeness auto
termination
  by (relation "measure (\<lambda>(i, data, n). nat (n - i))") auto

declare two_byte_swap_from.simps [simp del]

definition two_byte_swap :: "byte8 list \<Rightarrow> int \<Rightarrow> byte8 list option" where
  "two_byte_swap data n = two_byte_swap_from 0 data (n AND NOT 1)"

function four_byte_swap_from :: "int \<Rightarrow> byte8 list \<Rightarrow> int \<Rightarrow> byte8 list option" where
  "four_byte_swap_from i data n =
     (if i < n then
        (if 0 \<le> i \<and> i + 3 < int (length data)
         then four_byte_swap_from (i + 4)
                (data[nat i := data ! nat (i + 3), nat (i + 3) := data ! nat i,
                      nat (i + 1) := data ! nat (i + 2), nat (i + 2) := data ! nat (i + 1)]) n
         else None)
      else Some data)"
  by pat_completeness auto
termination
  by (relation "measure (\<lambda>(i, data, n). nat (n - i))") auto

declare four_byte_swap_from.simps [simp del]

definition four_byte_swap :: "byte8 list \<Rightarrow> int \<Rightarrow> byte8 list option" where
  "four_byte_swap data n = four_byte_swap_from 0 data (n AND NOT 3)"

section \<open>The metrics section and the font bounding box\<close>

text \<open>
  The two loops \<^verbatim>\<open>for (i = 0; i < nMetrics; i++) read_metric(&metrics[i]);\<close> and its
  compressed twin, over a freshly allocated array: a recursion on the number of records
  still to read.
\<close>

fun read_metrics_loop ::
  "(metric_t \<Rightarrow> globals \<Rightarrow> error + metric_t \<times> globals) \<Rightarrow> nat \<Rightarrow> globals
     \<Rightarrow> error + metric_t list \<times> globals" where
  "read_metrics_loop rd 0 g = Inr ([], g)"
| "read_metrics_loop rd (Suc n) g =
     bindE (rd metric_new g) (\<lambda>(m, g1).
     bindE (read_metrics_loop rd n g1) (\<lambda>(ms, g2).
     Inr (m # ms, g2)))"

text \<open>
  The metrics section of \<^verbatim>\<open>main\<close>, after \<^verbatim>\<open>seek(PCF_METRICS)\<close>: the \<^verbatim>\<open>switch\<close> on
  \<^verbatim>\<open>format.id\<close>. The result is the array \<^verbatim>\<open>metrics\<close>; \<^verbatim>\<open>nMetrics\<close> is its length.
\<close>

definition read_metrics_section :: "globals \<Rightarrow> error + metric_t list \<times> globals" where
  "read_metrics_section g =
     bindE (read_format32_little g) (\<lambda>(f, g0).
     let g1 = g0\<lparr>format := f\<rparr> in
     if fmt_id f = PCF_DEFAULT_FORMAT then
       bindE (read_int32 g1) (\<lambda>(nMetrics, g2).
       bindE (check_int32_min ''nMetrics'' nMetrics 1) (\<lambda>u.
       read_metrics_loop read_metric (nat (sint nMetrics)) g2))
     else if fmt_id f = PCF_COMPRESSED_METRICS then
       bindE (read_int16 g1) (\<lambda>(nMetrics, g2).
       bindE (check_int32_min ''nMetrics'' nMetrics 1) (\<lambda>u.
       read_metrics_loop read_compressed_metric (nat (sint nMetrics)) g2))
     else Inl (ErrorInvalidExit ''metrics''))"

text \<open>
  \<^verbatim>\<open>fontbbx = metrics[0]; for (i = 1; i < nMetrics; i++) { ... }\<close>: the body of the loop
  is \<open>fontbbx_step\<close>, the loop over \<^verbatim>\<open>metrics[1 ..]\<close> is \<open>fontbbx_loop\<close>. The four
  comparisons are between \<^verbatim>\<open>int16\<close> values, signed. \<^verbatim>\<open>nMetrics >= 1\<close> was checked
  when the section was read, so \<^verbatim>\<open>metrics[0]\<close> exists; an empty array has no box.
\<close>

definition fontbbx_step :: "metric_t \<Rightarrow> metric_t \<Rightarrow> metric_t" where
  "fontbbx_step bbx m =
     (let b1 = (if leftSideBearing m <s leftSideBearing bbx
                then bbx\<lparr>leftSideBearing := leftSideBearing m\<rparr> else bbx);
          b2 = (if rightSideBearing b1 <s rightSideBearing m
                then b1\<lparr>rightSideBearing := rightSideBearing m\<rparr> else b1);
          b3 = (if ascent b2 <s ascent m then b2\<lparr>ascent := ascent m\<rparr> else b2)
      in if descent b3 <s descent m then b3\<lparr>descent := descent m\<rparr> else b3)"

fun fontbbx_loop :: "metric_t \<Rightarrow> metric_t list \<Rightarrow> metric_t" where
  "fontbbx_loop bbx [] = bbx"
| "fontbbx_loop bbx (m # ms) = fontbbx_loop (fontbbx_step bbx m) ms"

definition fontbbx :: "metric_t list \<Rightarrow> metric_t option" where
  "fontbbx metrics = (case metrics of [] \<Rightarrow> None | m # ms \<Rightarrow> Some (fontbbx_loop m ms))"

text \<open>
  The numbers that \<^verbatim>\<open>fprintf(ofp, "    Width: %d,\n    Height:%d,\n",
  fontbbx.widthBits(), fontbbx.height())\<close> prints: the two \<^verbatim>\<open>int16\<close> results, promoted
  to \<^verbatim>\<open>int\<close>.
\<close>

definition emitted_width :: "metric_t \<Rightarrow> int" where
  "emitted_width bbx = sint (widthBits bbx)"

definition emitted_height :: "metric_t \<Rightarrow> int" where
  "emitted_height bbx = sint (height bbx)"

section \<open>The bitmaps section\<close>

fun read_uint32s :: "nat \<Rightarrow> globals \<Rightarrow> error + uint32 list \<times> globals" where
  "read_uint32s 0 g = Inr ([], g)"
| "read_uint32s (Suc n) g =
     bindE (read_uint32 g) (\<lambda>(x, g1).
     bindE (read_uint32s n g1) (\<lambda>(xs, g2).
     Inr (x # xs, g2)))"

record bitmaps_t =
  nBitmaps :: int32
  bitmapOffsets :: "uint32 list"
  bitmapSizes :: "uint32 list"
  bitmapSize :: int32
  bitmap_bytes :: "byte8 list"

definition GLYPHPADOPTIONS :: nat where
  "GLYPHPADOPTIONS = 4"

definition undefined_if_none :: "string \<Rightarrow> 'a option \<Rightarrow> error + 'a" where
  "undefined_if_none str r = (case r of None \<Rightarrow> Inl (Undefined str) | Some x \<Rightarrow> Inr x)"

text \<open>
  The two passes that bring the buffer to \<^verbatim>\<open>BDF_format\<close>. In the \<^verbatim>\<open>switch\<close> on
  \<^verbatim>\<open>1 << scan\<close> only the cases 1, 2 and 4 exist; 8 falls through it.
\<close>

definition normalize_bitmaps :: "format32 \<Rightarrow> byte8 list \<Rightarrow> int \<Rightarrow> byte8 list option" where
  "normalize_bitmaps f buf n =
     Option.bind
       (if fmt_bit f \<noteq> fmt_bit BDF_format then bit_order_invert buf n else Some buf)
       (\<lambda>buf1.
          if (fmt_bit f = fmt_byte f) \<noteq> (fmt_bit BDF_format = fmt_byte BDF_format) then
            (let grp = (push_bit (unat (if fmt_bit BDF_format = fmt_byte BDF_format
                                         then fmt_scan f else fmt_scan BDF_format)) 1 :: int)
             in if grp = 1 then Some buf1
                else if grp = 2 then two_byte_swap buf1 n
                else if grp = 4 then four_byte_swap buf1 n
                else Some buf1)
          else Some buf1)"

text \<open>
  The bitmaps section of \<^verbatim>\<open>main\<close>, after \<^verbatim>\<open>seek(PCF_BITMAPS)\<close>, up to the normalised
  buffer. \<^verbatim>\<open>nMetrics\<close> is the count the metrics section gave. Allocation is taken to
  succeed.
\<close>

definition read_bitmaps_section :: "int32 \<Rightarrow> globals \<Rightarrow> error + bitmaps_t \<times> globals" where
  "read_bitmaps_section nMetrics g =
     bindE (read_format32_little g) (\<lambda>(f, g0).
     let g1 = g0\<lparr>format := f\<rparr> in
     if fmt_id f \<noteq> PCF_DEFAULT_FORMAT then Inl (ErrorInvalidExit ''bitmaps'') else
     bindE (read_int32 g1) (\<lambda>(n, g2).
     bindE (check_int32_min ''nBitmaps'' n nMetrics) (\<lambda>u.
     bindE (read_uint32s (nat (sint n)) g2) (\<lambda>(offs, g3).
     bindE (read_uint32s GLYPHPADOPTIONS g3) (\<lambda>(sizes, g4).
     let sz = sizes ! unat (fmt_glyph f) in
     bindE (check_int32_min ''bitmapSize'' sz 0) (\<lambda>u.
     bindE (read_byte8s (nat (sint sz)) g4) (\<lambda>(buf, g5).
     bindE (undefined_if_none ''bitmaps'' (normalize_bitmaps f buf (sint sz))) (\<lambda>buf1.
     Inr (\<lparr>nBitmaps = n, bitmapOffsets = offs, bitmapSizes = sizes, bitmapSize = sz,
           bitmap_bytes = buf1\<rparr>, g5)))))))))"

section \<open>Properties\<close>

text \<open>
  \<^verbatim>\<open>union sv\<close> and \<^verbatim>\<open>struct props_t\<close>, as they stand once the offsets into the string
  blob are resolved: the name is a string, and the value holds the member
  that \<^verbatim>\<open>isStringProp\<close> selects. \<open>sv_v\<close> reads the member \<^verbatim>\<open>v\<close>.
\<close>

datatype sv = S string | V int32

record props_t =
  prop_name :: string
  isStringProp :: bool
  prop_value :: sv

definition sv_v :: "sv \<Rightarrow> int32" where
  "sv_v x = (case x of V v \<Rightarrow> v)"

text \<open>
  \<^verbatim>\<open>get_property_value(name)\<close>: the loop over \<^verbatim>\<open>props[0 .. nProps - 1]\<close> stops at the
  first property of that name.
\<close>

fun get_property_value :: "string \<Rightarrow> props_t list \<Rightarrow> error + int32" where
  "get_property_value name [] = Inr (- 1)"
| "get_property_value name (p # ps) =
     (if name = prop_name p then
        (if isStringProp p then Inl (ErrorInvalidExit ''property_value'')
         else Inr (sv_v (prop_value p)))
      else get_property_value name ps)"

section \<open>Scalable widths\<close>

text \<open>
  The fallback of the swidths section computes in \<^verbatim>\<open>double\<close>. The model computes in the
  reals and takes the rounding of the machine as a parameter \<open>rnd\<close>, applied to the
  constant \<^verbatim>\<open>72.27\<close> (not a binary fraction) and to the result of every division and
  multiplication. The integers converted to \<^verbatim>\<open>double\<close> (at most 32 bits) and the
  constants \<^verbatim>\<open>100.0\<close>, \<^verbatim>\<open>10.0\<close> and \<^verbatim>\<open>1000\<close> are exact. \<open>double_rounding rnd\<close> is
  what IEEE 754 binary64 guarantees of a rounding, in any rounding mode and with room for
  an intermediate result held in extended precision: on the range of the finite numbers,
  an error of at most \<open>\<bar>x\<bar> / 2 ^ 52\<close> (one unit in the last place of a normal number)
  plus \<open>1 / 2 ^ 1074\<close> (the spacing of the subnormal numbers).
\<close>

type_synonym rounding = "real \<Rightarrow> real"

definition double_rounding :: "rounding \<Rightarrow> bool" where
  "double_rounding rnd =
     (\<forall>x. \<bar>x\<bar> \<le> 2 ^ 1023 \<longrightarrow> \<bar>rnd x - x\<bar> \<le> \<bar>x\<bar> / 2 ^ 52 + 1 / 2 ^ 1074)"

text \<open>
  A division by 0.0 gives an infinity or a NaN, every later operation of the expression
  keeps it one, and the conversion of such a value to \<^verbatim>\<open>int\<close> is undefined: the model
  stops at the division. The conversion \<^verbatim>\<open>(int)x\<close> truncates towards zero and is
  undefined outside the range of \<^verbatim>\<open>int\<close>.
\<close>

definition double_div :: "rounding \<Rightarrow> real \<Rightarrow> real \<Rightarrow> error + real" where
  "double_div rnd x y = (if y = 0 then Inl (Undefined ''division by 0.0'') else Inr (rnd (x / y)))"

definition int_of_double :: "real \<Rightarrow> error + int32" where
  "int_of_double x =
     (let k = (if 0 \<le> x then \<lfloor>x\<rfloor> else \<lceil>x\<rceil>)
      in if - (2 ^ 31) \<le> k \<and> k < 2 ^ 31 then Inr (word_of_int k)
         else Inl (Undefined ''(int) of a double out of range''))"

text \<open>
  \<^verbatim>\<open>int32 rx = get_property_value("RESOLUTION_X");
  if (rx <= 0) { rx = (int)(get_property_value("RESOLUTION") / 100.0 * 72.27); }\<close>
  The body of the \<^verbatim>\<open>if\<close> is \<open>resolution_fallback\<close>.
\<close>

definition resolution_fallback :: "rounding \<Rightarrow> props_t list \<Rightarrow> error + int32" where
  "resolution_fallback rnd props =
     bindE (get_property_value ''RESOLUTION'' props) (\<lambda>r.
     int_of_double (rnd (rnd (real_of_int (sint r) / 100) * rnd 72.27)))"

definition resolution_x :: "rounding \<Rightarrow> props_t list \<Rightarrow> error + int32" where
  "resolution_x rnd props =
     bindE (get_property_value ''RESOLUTION_X'' props) (\<lambda>rx.
     if rx \<le>s 0 then resolution_fallback rnd props else Inr rx)"

text \<open>
  \<^verbatim>\<open>(int)(metrics[i].characterWidth / (rx / 72.27) / (p / 1000))\<close>
\<close>

definition swidth_of :: "rounding \<Rightarrow> int32 \<Rightarrow> real \<Rightarrow> metric_t \<Rightarrow> error + int32" where
  "swidth_of rnd rx p m =
     bindE (double_div rnd (real_of_int (sint rx)) (rnd 72.27)) (\<lambda>a.
     bindE (double_div rnd (real_of_int (sint (characterWidth m))) a) (\<lambda>b.
     bindE (double_div rnd p 1000) (\<lambda>c.
     bindE (double_div rnd b c) (\<lambda>d.
     int_of_double d))))"

fun swidths_loop :: "rounding \<Rightarrow> int32 \<Rightarrow> real \<Rightarrow> metric_t list \<Rightarrow> error + metric_t list" where
  "swidths_loop rnd rx p [] = Inr []"
| "swidths_loop rnd rx p (m # ms) =
     bindE (swidth_of rnd rx p m) (\<lambda>w.
     bindE (swidths_loop rnd rx p ms) (\<lambda>ms1.
     Inr (m\<lparr>swidth := w\<rparr> # ms1)))"

definition computed_swidths :: "rounding \<Rightarrow> props_t list \<Rightarrow> metric_t list \<Rightarrow> error + metric_t list" where
  "computed_swidths rnd props metrics =
     bindE (resolution_x rnd props) (\<lambda>rx.
     bindE (get_property_value ''POINT_SIZE'' props) (\<lambda>ps.
     let p = rnd (real_of_int (sint ps) / 10) in
     swidths_loop rnd rx p metrics))"

fun read_swidths_loop :: "metric_t list \<Rightarrow> globals \<Rightarrow> error + metric_t list \<times> globals" where
  "read_swidths_loop [] g = Inr ([], g)"
| "read_swidths_loop (m # ms) g =
     bindE (read_int32 g) (\<lambda>(w, g1).
     bindE (read_swidths_loop ms g1) (\<lambda>(ms1, g2).
     Inr (m\<lparr>swidth := w\<rparr> # ms1, g2)))"

text \<open>
  The swidths section of \<^verbatim>\<open>main\<close>: read from the file when \<^verbatim>\<open>seek(PCF_SWIDTHS)\<close> finds
  it, computed otherwise.
\<close>

definition swidths_section ::
  "rounding \<Rightarrow> table_t list \<Rightarrow> props_t list \<Rightarrow> metric_t list \<Rightarrow> globals
     \<Rightarrow> error + metric_t list \<times> globals" where
  "swidths_section rnd tables props metrics g =
     bindE (seek tables PCF_SWIDTHS g) (\<lambda>(found, g0).
     if found then
       bindE (read_format32_little g0) (\<lambda>(f, g1).
       let g2 = g1\<lparr>format := f\<rparr> in
       if fmt_id f \<noteq> PCF_DEFAULT_FORMAT then Inl (ErrorInvalidExit ''encoding'') else
       bindE (read_int32 g2) (\<lambda>(nSwidths, g3).
       if sint nSwidths \<noteq> int (length metrics) then Inl (ErrorExit ''nSwidths != nMetrics'')
       else read_swidths_loop metrics g3))
     else
       bindE (computed_swidths rnd props metrics) (\<lambda>ms. Inr (ms, g0)))"

section \<open>The name of the font entry\<close>

text \<open>
  \<^verbatim>\<open>strrchr(s, c)\<close> for a character other than the terminator: the index of the last
  \<^verbatim>\<open>c\<close> in \<^verbatim>\<open>s\<close>, \<open>None\<close> for the null pointer.
\<close>

fun strrchr :: "string \<Rightarrow> char \<Rightarrow> nat option" where
  "strrchr [] c = None"
| "strrchr (x # xs) c =
     (case strrchr xs c of
        Some k \<Rightarrow> Some (Suc k)
      | None \<Rightarrow> if x = c then Some 0 else None)"

text \<open>
  The two character buffers of
  \<^verbatim>\<open>char *fontname = strdup(ifilename);
  char *period = strrchr(ifilename, '.');
  if (period != NULL) *period = '\0';\<close>
  \<^verbatim>\<open>strdup\<close> gives \<^verbatim>\<open>fontname\<close> a buffer of its own, \<^verbatim>\<open>period\<close> points into the buffer
  of \<^verbatim>\<open>ifilename\<close>, and the store of the terminator cuts the string in that buffer.
\<close>

record name_buffers =
  ifilename_buf :: string
  fontname_buf :: string

definition strip_period :: "string \<Rightarrow> name_buffers" where
  "strip_period ifilename =
     (let bufs = \<lparr>ifilename_buf = ifilename, fontname_buf = ifilename\<rparr>;
          period = strrchr (ifilename_buf bufs) CHR ''.''
      in case period of
           None \<Rightarrow> bufs
         | Some k \<Rightarrow> bufs\<lparr>ifilename_buf := take k (ifilename_buf bufs)\<rparr>)"

text \<open>
  The string that \<^verbatim>\<open>fprintf(ofp, "\"%s\": STARSFont{\n", fontname)\<close> puts between the
  quotes.
\<close>

definition emitted_font_name :: "string \<Rightarrow> string" where
  "emitted_font_name ifilename = fontname_buf (strip_period ifilename)"

text \<open>
  What the specification asks of the name, in its own words: the input filename with its
  extension (the suffix from the last \<^verbatim>\<open>'.'\<close>) stripped.
\<close>

definition spec_font_name :: "string \<Rightarrow> string" where
  "spec_font_name ifilename =
     (case strrchr ifilename CHR ''.'' of None \<Rightarrow> ifilename | Some k \<Rightarrow> take k ifilename)"

section \<open>Vocabulary of the statements\<close>

text \<open>
  The index a byte moves to under a swap of groups of two and of four bytes: within its
  group, position \<open>r\<close> goes to position \<open>1 - r\<close>, respectively \<open>3 - r\<close>. The two maps
  are used to state what \<open>two_byte_swap\<close> and \<open>four_byte_swap\<close> compute.
\<close>

definition partner2 :: "nat \<Rightarrow> nat" where
  "partner2 j = (if even j then j + 1 else j - 1)"

definition partner4 :: "nat \<Rightarrow> nat" where
  "partner4 j = 4 * (j div 4) + (3 - j mod 4)"

text \<open>
  The distance from the cursor to a section, \<^verbatim>\<open>entry.offset - bytesConsumed\<close>, as an
  integer.
\<close>

definition delta :: "table_t \<Rightarrow> globals \<Rightarrow> int" where
  "delta t g = sint (tbl_offset t) - read_bytes g"

section \<open>Facts about the cursor\<close>

lemma bindE_Inr [simp]: "bindE (Inr x) f = f x"
  by (simp add: bindE_def)

lemma bindE_Inl [simp]: "bindE (Inl e) f = Inl e"
  by (simp add: bindE_def)

lemma read8_Cons:
  "ifp g = a # rest \<Longrightarrow> read8 g = Inr (a, g\<lparr>ifp := rest, read_bytes := read_bytes g + 1\<rparr>)"
  by (simp add: read8_def)

lemma read8_Nil: "ifp g = [] \<Longrightarrow> read8 g = Inl (ErrorExit ''unexpected eof'')"
  by (simp add: read8_def)

lemma sint_biased_byte: "sint (ucast (a::byte8) - 0x80 :: int16) = uint a - 128"
proof -
  have "uint a < 256" using uint_bounded[of a] by simp
  moreover have "0 \<le> uint a" by simp
  moreover have "(ucast a - 0x80 :: 16 word) = word_of_int (uint a - 128)"
    by (simp add: word_of_int_uint)
  ultimately show ?thesis
    by (simp add: sint_sbintrunc' signed_take_bit_int_eq_self del: of_int_diff)
qed

lemma read_compressed_metric_eof:
  "length (ifp g) < 5 \<Longrightarrow> read_compressed_metric m g = Inl (ErrorExit ''unexpected eof'')"
  apply (cases "ifp g"; simp add: read_compressed_metric_def read_uint8_def read8_Cons read8_Nil)
  subgoal for a1 r1
  apply (cases r1; simp add: read8_Cons read8_Nil)
  subgoal for a2 r2
  apply (cases r2; simp add: read8_Cons read8_Nil)
  subgoal for a3 r3
  apply (cases r3; simp add: read8_Cons read8_Nil)
  done done done done

section \<open>Compressed metrics\<close>

text \<open>
  Claim C3, as amended. Decoding one compressed-form metric consumes exactly five bytes
  (not four): one each for \<^verbatim>\<open>leftSideBearing\<close>, \<^verbatim>\<open>rightSideBearing\<close>,
  \<^verbatim>\<open>characterWidth\<close>, \<^verbatim>\<open>ascent\<close> and \<^verbatim>\<open>descent\<close>. Each is read as an unsigned byte
  and biased by -128, \<^verbatim>\<open>attributes\<close> is set to 0, and the result is the same record
  \<open>metric_t\<close> that the full form fills, its other fields untouched. \<^verbatim>\<open>read_bytes\<close> grows
  by 5. With fewer than five bytes left the decoder exits with "unexpected eof".
\<close>

theorem read_compressed_metric_five_bytes:
  "read_compressed_metric m (g\<lparr>ifp := a # b # c # d # e # rest\<rparr>) =
     Inr (m\<lparr>leftSideBearing := ucast a - 0x80, rightSideBearing := ucast b - 0x80,
            characterWidth := ucast c - 0x80, ascent := ucast d - 0x80,
            descent := ucast e - 0x80, attributes := 0\<rparr>,
          g\<lparr>ifp := rest, read_bytes := read_bytes g + 5\<rparr>)
   \<and> sint (ucast a - 0x80 :: int16) = uint a - 128
   \<and> sint (ucast b - 0x80 :: int16) = uint b - 128
   \<and> sint (ucast c - 0x80 :: int16) = uint c - 128
   \<and> sint (ucast d - 0x80 :: int16) = uint d - 128
   \<and> sint (ucast e - 0x80 :: int16) = uint e - 128
   \<and> (length (ifp g) < 5 \<longrightarrow> read_compressed_metric m g = Inl (ErrorExit ''unexpected eof''))"
proof -
  have decoded:
    "read_compressed_metric m (g\<lparr>ifp := a # b # c # d # e # rest\<rparr>) =
       Inr (m\<lparr>leftSideBearing := ucast a - 0x80, rightSideBearing := ucast b - 0x80,
              characterWidth := ucast c - 0x80, ascent := ucast d - 0x80,
              descent := ucast e - 0x80, attributes := 0\<rparr>,
            g\<lparr>ifp := rest, read_bytes := read_bytes g + 5\<rparr>)"
    by (simp add: read_compressed_metric_def read_uint8_def read8_Cons)
  have short:
    "length (ifp g) < 5 \<longrightarrow> read_compressed_metric m g = Inl (ErrorExit ''unexpected eof'')"
    by (simp add: read_compressed_metric_eof)
  from decoded short show ?thesis
    by (simp only: sint_biased_byte simp_thms)
qed

theorem read_compressed_metric_five_bytes_witness:
  "read_compressed_metric metric_new
     \<lparr>ifp = [0x80, 0x88, 0x88, 0x87, 0x81, 0x55], read_bytes = 0, format = BDF_format\<rparr> =
     Inr (metric_new\<lparr>leftSideBearing := 0, rightSideBearing := 8, characterWidth := 8,
            ascent := 7, descent := 1, attributes := 0\<rparr>,
          \<lparr>ifp = [0x55], read_bytes = 5, format = BDF_format\<rparr>)
   \<and> read_compressed_metric metric_new \<lparr>ifp = [0x80, 0x88], read_bytes = 0, format = BDF_format\<rparr>
       = Inl (ErrorExit ''unexpected eof'')"
  using read_compressed_metric_five_bytes [where m = metric_new
      and g = "\<lparr>ifp = [], read_bytes = 0, format = BDF_format\<rparr>"
      and a = "0x80" and b = "0x88" and c = "0x88" and d = "0x87" and e = "0x81" and rest = "[0x55]"]
    read_compressed_metric_five_bytes [where m = metric_new
      and g = "\<lparr>ifp = [0x80, 0x88], read_bytes = 0, format = BDF_format\<rparr>"]
  by simp

text \<open>
  The claim as it was stated (four bytes) fails: a stream of four bytes is not enough for
  one compressed metric, and on a longer stream the fifth byte becomes \<^verbatim>\<open>descent\<close>
  and \<^verbatim>\<open>read_bytes\<close> ends at 5.
\<close>

theorem read_compressed_metric_four_bytes_counterexample:
  "read_compressed_metric metric_new
     \<lparr>ifp = [0x80, 0x88, 0x88, 0x87], read_bytes = 0, format = BDF_format\<rparr> =
     Inl (ErrorExit ''unexpected eof'')
   \<and> map_sum id (\<lambda>(m, g). (sint (descent m), read_bytes g, ifp g))
       (read_compressed_metric metric_new
          \<lparr>ifp = [0x80, 0x88, 0x88, 0x87, 0x81, 0x55], read_bytes = 0, format = BDF_format\<rparr>) =
     Inr (1, 5, [0x55])"
  by (simp add: read_compressed_metric_def read_uint8_def read8_def)

section \<open>Bit-order inversion\<close>

lemma fifteen_mask: "(15::byte8) = mask 4"
  by (simp add: mask_eq_exp_minus_1)

lemma nibble_lt: "unat ((b::byte8) AND 15) < 16"
proof -
  have "unat (b AND 15) \<le> unat (15 :: byte8)"
    by (rule word_and_le1 [THEN word_le_nat_alt [THEN iffD1]])
  then show ?thesis by simp
qed

lemma nibble_cases:
  fixes x :: byte8
  assumes "unat x < 16"
  shows "x \<in> {0, 1, 2, 3, 4, 5, 6, 7, 8, 9, 10, 11, 12, 13, 14, 15}"
proof -
  have "unat x \<in> {0, 1, 2, 3, 4, 5, 6, 7, 8, 9, 10, 11, 12, 13, 14, 15}"
    using assms by (simp; arith)
  then have "word_of_nat (unat x) \<in> (word_of_nat ` {0, 1, 2, 3, 4, 5, 6, 7, 8, 9, 10, 11, 12, 13, 14, 15} :: byte8 set)"
    by (rule imageI)
  then show ?thesis by simp
qed

lemma invert_nibble:
  fixes x :: byte8 
  assumes "unat x < 16"
  shows "unat (invert ! unat x) < 16" and "invert ! unat (invert ! unat x) = x"
  using nibble_cases[OF assms] by (auto simp add: invert_def)

lemma nibble_and: 
  fixes x :: byte8 
  assumes "unat x < 16"
  shows "x AND 15 = x" and "drop_bit 4 x = 0"
  using nibble_cases[OF assms] by auto

lemma split_byte: "push_bit 4 (drop_bit 4 b AND 15) OR (b AND 15) = (b::byte8)"
  unfolding fifteen_mask
  by (rule bit_word_eqI) (auto simp add: bit_simps)

lemma push_and: "push_bit 4 (h::byte8) AND 15 = 0"
  unfolding fifteen_mask
  by (rule bit_word_eqI) (auto simp add: bit_simps)

lemma drop_push: "drop_bit 4 (push_bit 4 (h::byte8)) AND 15 = h AND 15"
  unfolding fifteen_mask
  by (rule bit_word_eqI) (auto simp add: bit_simps)

lemma low_of_join:
  fixes h l :: byte8
  assumes "unat l < 16"
  shows "(push_bit 4 h OR l) AND 15 = l"
  by (simp add: bit.conj_disj_distrib2 push_and nibble_and[OF assms])

lemma high_of_join:
  fixes h l :: byte8
  assumes "unat l < 16" "unat h < 16"
  shows "drop_bit 4 (push_bit 4 h OR l) AND 15 = h"
  by (simp add: drop_bit_or bit.conj_disj_distrib2 drop_push nibble_and[OF assms(1)] nibble_and[OF assms(2)])

lemma invert_byte_involution: "invert_byte (invert_byte b) = b"
proof -
  let ?lo = "b AND 15" and ?hi = "drop_bit 4 b AND 15"
  have lo: "unat ?lo < 16" by (rule nibble_lt)
  have hi: "unat ?hi < 16" by (rule nibble_lt)
  note tl = invert_nibble[OF lo] and th = invert_nibble[OF hi]
  have "invert_byte b = push_bit 4 (invert ! unat ?lo) OR invert ! unat ?hi"
    by (simp add: invert_byte_def)
  then have "invert_byte (invert_byte b) = push_bit 4 (invert ! unat (invert ! unat ?hi)) OR invert ! unat (invert ! unat ?lo)"
    using low_of_join[OF th(1)] high_of_join[OF th(1) tl(1)]
    by (simp add: invert_byte_def)
  then show ?thesis using tl(2) th(2) split_byte by simp
qed


lemma bit_order_invert_from_nth:
  "0 \<le> i \<Longrightarrow> n \<le> int (length data) \<Longrightarrow>
   \<exists>d. bit_order_invert_from i data n = Some d \<and> length d = length data \<and>
       (\<forall>j<length data. d ! j =
          (if i \<le> int j \<and> int j < n then invert_byte (data ! j) else data ! j))"
proof (induction i data n rule: bit_order_invert_from.induct)
  case (1 i data n)
  show ?case
  proof (cases "i < n")
    case False
    then show ?thesis
      by (subst bit_order_invert_from.simps) auto
  next
    case True
    let ?d1 = "data[nat i := invert_byte (data ! nat i)]"
    from True "1.prems" have inb: "0 \<le> i \<and> i < int (length data)"
      by simp
    have "0 \<le> i + 1" and "n \<le> int (length ?d1)"
      using "1.prems" by simp_all
    from "1.IH" [OF True inb this] obtain d where
      d: "bit_order_invert_from (i + 1) ?d1 n = Some d" "length d = length ?d1"
      and nth: "\<forall>j<length ?d1. d ! j =
          (if i + 1 \<le> int j \<and> int j < n then invert_byte (?d1 ! j) else ?d1 ! j)"
      by blast
    have "bit_order_invert_from i data n = Some d"
      using True inb d(1) by (subst bit_order_invert_from.simps) simp
    moreover have "length d = length data"
      using d(2) by simp
    moreover have "\<forall>j<length data. d ! j =
          (if i \<le> int j \<and> int j < n then invert_byte (data ! j) else data ! j)"
    proof (intro allI impI)
      fix j assume j: "j < length data"
      show "d ! j = (if i \<le> int j \<and> int j < n then invert_byte (data ! j) else data ! j)"
      proof (cases "j = nat i")
        case True
        with j nth inb \<open>i < n\<close> show ?thesis by simp
      next
        case False
        with j nth inb have "d ! j = (if i + 1 \<le> int j \<and> int j < n then invert_byte (data ! j) else data ! j)"
          by simp
        moreover from False inb have "i + 1 \<le> int j \<longleftrightarrow> i \<le> int j" by auto
        ultimately show ?thesis by simp
      qed
    qed
    ultimately show ?thesis by blast
  qed
qed

lemma bit_order_invert_eq:
  assumes "n \<le> int (length data)"
  shows "bit_order_invert data n =
           Some (map invert_byte (take (nat n) data) @ drop (nat n) data)"
proof -
  from bit_order_invert_from_nth [of 0 n data] assms obtain d where
    d: "bit_order_invert_from 0 data n = Some d" "length d = length data"
    and nth: "\<forall>j<length data. d ! j =
          (if 0 \<le> int j \<and> int j < n then invert_byte (data ! j) else data ! j)"
    by auto
  have "d = map invert_byte (take (nat n) data) @ drop (nat n) data"
  proof (rule nth_equalityI)
    show "length d = length (map invert_byte (take (nat n) data) @ drop (nat n) data)"
      using d(2) by simp
  next
    fix j assume "j < length d"
    then have j: "j < length data" using d(2) by simp
    show "d ! j = (map invert_byte (take (nat n) data) @ drop (nat n) data) ! j"
    proof (cases "int j < n")
      case True
      then have "j < nat n" by simp
      with True j nth show ?thesis by (simp add: nth_append)
    next
      case False
      then have "\<not> j < nat n" by simp
      with False j nth assms show ?thesis by (simp add: nth_append min_def)
    qed
  qed
  with d(1) show ?thesis by (simp add: bit_order_invert_def)
qed

text \<open>
  Claim C8. For every byte buffer, of any size, applying the bit-order inversion pass
  twice gives back the buffer: \<^verbatim>\<open>bit_order_invert(data, size)\<close> run twice over the
  first \<open>n\<close> bytes of a buffer that holds at least \<open>n\<close> bytes (the whole buffer when
  \<open>n\<close> is its length) returns, and leaves the buffer as it was. Each byte goes through the
  16-entry table nibble by nibble, and that map is its own inverse
  (\<open>invert_byte_involution\<close>).
\<close>

theorem bit_order_invert_involution:
  "n \<le> int (length data) \<Longrightarrow>
   Option.bind (bit_order_invert data n) (\<lambda>d. bit_order_invert d n) = Some data"
proof -
  assume n: "n \<le> int (length data)"
  let ?d = "map invert_byte (take (nat n) data) @ drop (nat n) data"
  have len: "n \<le> int (length ?d)" using n by simp
  have "map invert_byte (take (nat n) ?d) @ drop (nat n) ?d = data"
    using n by (simp add: invert_byte_involution o_def min_def)
  then show ?thesis
    using bit_order_invert_eq [OF n] bit_order_invert_eq [OF len] by simp
qed

theorem bit_order_invert_involution_witness:
  "Option.bind (bit_order_invert [0x01, 0x80, 0xA5] 3) (\<lambda>d. bit_order_invert d 3) = Some [0x01, 0x80, 0xA5]
   \<and> bit_order_invert [0x01, 0x80, 0xA5] 3 = Some [0x80, 0x01, 0xA5]"
  using bit_order_invert_involution [of 3 "[0x01, 0x80, 0xA5]"]
  by (simp add: bit_order_invert_eq invert_byte_def invert_def)

section \<open>Group swaps\<close>

lemma and_not_mask_int: "(k::int) AND NOT (mask m) = 2 ^ m * (k div 2 ^ m)"
proof -
  have "k AND NOT (mask m) = push_bit m (drop_bit m k)"
    by (rule bit_eqI) (auto simp add: bit_simps)
  then show ?thesis by (simp add: push_bit_eq_mult drop_bit_eq_div)
qed

lemma and_not_1_int: "(n::int) AND NOT 1 = 2 * (n div 2)"
  using and_not_mask_int [of n 1] by simp

lemma and_not_3_int: "(n::int) AND NOT 3 = 4 * (n div 4)"
  using and_not_mask_int [of n 2] by (simp add: mask_eq_exp_minus_1)

lemma and_not_7_int: "(n::int) AND NOT 7 = 8 * (n div 8)"
  using and_not_mask_int [of n 3] by (simp add: mask_eq_exp_minus_1)

lemma two_byte_swap_from_nth:
  "0 \<le> i \<Longrightarrow> even i \<Longrightarrow> even n \<Longrightarrow> n \<le> int (length data) \<Longrightarrow>
   \<exists>d. two_byte_swap_from i data n = Some d \<and> length d = length data \<and>
       (\<forall>j<length data. d ! j =
          (if i \<le> int j \<and> int j < n then data ! partner2 j else data ! j))"
proof (induction i data n rule: two_byte_swap_from.induct)
  case (1 i data n)
  show ?case
  proof (cases "i < n")
    case False
    then show ?thesis
      by (subst two_byte_swap_from.simps) auto
  next
    case True
    let ?d1 = "data[nat i := data ! nat (i + 1), nat (i + 1) := data ! nat i]"
    from True "1.prems" have "i + 1 < n" by presburger
    with "1.prems" have inb: "0 \<le> i \<and> i + 1 < int (length data)"
      by simp
    have "0 \<le> i + 2" "even (i + 2)" "even n" and "n \<le> int (length ?d1)"
      using "1.prems" by simp_all
    from "1.IH" [OF True inb this] obtain d where
      d: "two_byte_swap_from (i + 2) ?d1 n = Some d" "length d = length ?d1"
      and nth: "\<forall>j<length ?d1. d ! j =
          (if i + 2 \<le> int j \<and> int j < n then ?d1 ! partner2 j else ?d1 ! j)"
      by blast
    have "two_byte_swap_from i data n = Some d"
      using True inb d(1) by (subst two_byte_swap_from.simps) simp
    moreover have "length d = length data"
      using d(2) by simp
    moreover have "\<forall>j<length data. d ! j =
          (if i \<le> int j \<and> int j < n then data ! partner2 j else data ! j)"
    proof (intro allI impI)
      fix j assume j: "j < length data"
      have ni: "nat (i + 1) = Suc (nat i)" using inb by linarith
      have ei: "even (nat i)" using \<open>even i\<close> inb by (simp add: even_nat_iff)
      from nth j have dj: "d ! j =
          (if i + 2 \<le> int j \<and> int j < n then ?d1 ! partner2 j else ?d1 ! j)"
        by simp
      consider "j = nat i" | "j = Suc (nat i)" | "j < nat i" | "Suc (nat i) < j"
        by linarith
      then show "d ! j = (if i \<le> int j \<and> int j < n then data ! partner2 j else data ! j)"
      proof cases
        case 1
        then have a: "i \<le> int j" "int j < n" "\<not> i + 2 \<le> int j" "partner2 j = Suc (nat i)"
          using inb ei \<open>i < n\<close> by (simp_all add: partner2_def)
        from dj a have "d ! j = ?d1 ! j" by simp
        also have "\<dots> = data ! Suc (nat i)" using 1 j ni by simp
        finally show ?thesis using a by simp
      next
        case 2
        then have a: "i \<le> int j" "int j < n" "\<not> i + 2 \<le> int j" "partner2 j = nat i"
          using inb ei \<open>i + 1 < n\<close> by (simp_all add: partner2_def)
        from dj a have "d ! j = ?d1 ! j" by simp
        also have "\<dots> = data ! nat i" using 2 j ni by simp
        finally show ?thesis using a by simp
      next
        case 3
        then have a: "\<not> i \<le> int j" "\<not> i + 2 \<le> int j" by linarith+
        from dj a have "d ! j = ?d1 ! j" by simp
        also have "\<dots> = data ! j" using 3 ni by simp
        finally show ?thesis using a by simp
      next
        case 4
        then have r: "i + 2 \<le> int j" "i \<le> int j" using inb by linarith+
        have p: "Suc (nat i) < partner2 j"
          using 4 ei by (auto simp add: partner2_def elim!: oddE evenE)
        show ?thesis
        proof (cases "int j < n")
          case True
          with dj r have "d ! j = ?d1 ! partner2 j" by simp
          also have "\<dots> = data ! partner2 j" using p ni by simp
          finally show ?thesis using r True by simp
        next
          case False
          with dj have "d ! j = ?d1 ! j" by simp
          also have "\<dots> = data ! j" using 4 ni by simp
          finally show ?thesis using False by simp
        qed
      qed
    qed
    ultimately show ?thesis by blast
  qed
qed


lemma partner2_involution: "partner2 (partner2 j) = j"
  by (auto simp add: partner2_def)

lemma partner2_less: "even (m::nat) \<Longrightarrow> j < m \<Longrightarrow> partner2 j < m"
  by (auto simp add: partner2_def elim!: evenE oddE)

lemma two_byte_swap_nth:
  assumes "n \<le> int (length data)"
  shows "\<exists>d. two_byte_swap data n = Some d \<and> length d = length data \<and>
       (\<forall>j<length data. d ! j =
          (if j < nat (2 * (n div 2)) then data ! partner2 j else data ! j))"
proof -
  have "2 * (n div 2) \<le> n" by presburger
  with assms have "2 * (n div 2) \<le> int (length data)" by simp
  from two_byte_swap_from_nth [of 0 "2 * (n div 2)" data, OF _ _ _ this]
  obtain d where d: "two_byte_swap_from 0 data (2 * (n div 2)) = Some d" "length d = length data"
    and nth: "\<forall>j<length data. d ! j =
          (if 0 \<le> int j \<and> int j < 2 * (n div 2) then data ! partner2 j else data ! j)"
    by auto
  have "\<forall>j<length data. d ! j =
          (if j < nat (2 * (n div 2)) then data ! partner2 j else data ! j)"
  proof (intro allI impI)
    fix j assume "j < length data"
    moreover have "int j < 2 * (n div 2) \<longleftrightarrow> j < nat (2 * (n div 2))" by linarith
    ultimately show "d ! j = (if j < nat (2 * (n div 2)) then data ! partner2 j else data ! j)"
      using nth by simp
  qed
  moreover have "two_byte_swap data n = two_byte_swap_from 0 data (2 * (n div 2))"
    by (simp only: two_byte_swap_def and_not_1_int)
  ultimately show ?thesis using d by simp
qed

lemma two_byte_swap_twice:
  assumes "n \<le> int (length data)"
  shows "Option.bind (two_byte_swap data n) (\<lambda>d. two_byte_swap d n) = Some data"
proof -
  let ?m = "nat (2 * (n div 2))"
  have m: "even ?m" by (simp add: nat_mult_distrib)
  from two_byte_swap_nth [OF assms] obtain d where
    d: "two_byte_swap data n = Some d" "length d = length data"
    and nth: "\<forall>j<length data. d ! j = (if j < ?m then data ! partner2 j else data ! j)"
    by blast
  have "2 * (n div 2) \<le> n" by presburger
  with assms have mle: "?m \<le> length data" by linarith
  from d(2) assms have "n \<le> int (length d)" by simp
  from two_byte_swap_nth [OF this] obtain e where
    e: "two_byte_swap d n = Some e" "length e = length d"
    and nth': "\<forall>j<length d. e ! j = (if j < ?m then d ! partner2 j else d ! j)"
    by blast
  have "e = data"
  proof (rule nth_equalityI)
    show "length e = length data" using e(2) d(2) by simp
  next
    fix j assume "j < length e"
    then have j: "j < length data" using e(2) d(2) by simp
    show "e ! j = data ! j"
    proof (cases "j < ?m")
      case True
      then have p: "partner2 j < ?m" using m by (rule partner2_less [rotated])
      with mle have "partner2 j < length data" by simp
      with nth p have "d ! partner2 j = data ! partner2 (partner2 j)" by simp
      moreover from nth' j d(2) True have "e ! j = d ! partner2 j" by simp
      ultimately show ?thesis by (simp add: partner2_involution)
    next
      case False
      with nth nth' j d(2) show ?thesis by simp
    qed
  qed
  with d(1) e(1) show ?thesis by simp
qed

lemma two_byte_swap_tail:
  assumes "n \<le> int (length data)"
  shows "map_option (drop (nat (2 * (n div 2)))) (two_byte_swap data n) =
           Some (drop (nat (2 * (n div 2))) data)"
proof -
  let ?m = "nat (2 * (n div 2))"
  from two_byte_swap_nth [OF assms] obtain d where
    d: "two_byte_swap data n = Some d" "length d = length data"
    and nth: "\<forall>j<length data. d ! j = (if j < ?m then data ! partner2 j else data ! j)"
    by blast
  have "drop ?m d = drop ?m data"
    by (rule nth_equalityI) (use d(2) nth in auto)
  with d(1) show ?thesis by simp
qed


lemma partner4_at:
  assumes "c < 4"
  shows "partner4 (4 * q + c) = 4 * q + (3 - c)"
  using assms by (simp add: partner4_def)

lemma partner4_involution: "partner4 (partner4 j) = j"
proof -
  have a: "partner4 j = 4 * (j div 4) + (3 - j mod 4)"
    by (simp add: partner4_def)
  have b: "partner4 (4 * (j div 4) + (3 - j mod 4)) = 4 * (j div 4) + (3 - (3 - j mod 4))"
    by (rule partner4_at) simp
  have c: "3 - (3 - j mod 4) = j mod 4"
    using mod_less_divisor [of 4 j] by linarith
  show ?thesis unfolding a b c by simp
qed

lemma partner4_less:
  assumes "4 dvd (m::nat)" "j < m"
  shows "partner4 j < m"
proof -
  from assms(1) obtain q where m: "m = 4 * q" ..
  with assms(2) have "j div 4 < q" by (simp add: less_mult_imp_div_less mult.commute)
  then have "4 * (j div 4) + 3 < 4 * q" by linarith
  then show ?thesis by (simp add: partner4_def m)
qed

lemma partner4_ge:
  assumes "4 dvd (m::nat)" "m \<le> j"
  shows "m \<le> partner4 j"
proof -
  from assms(1) obtain q where m: "m = 4 * q" ..
  with assms(2) have "q \<le> j div 4" by (simp add: less_eq_div_iff_mult_less_eq mult.commute)
  then have "4 * q \<le> 4 * (j div 4)" by linarith
  then show ?thesis by (simp add: partner4_def m)
qed

lemma four_byte_swap_from_nth:
  "0 \<le> i \<Longrightarrow> 4 dvd i \<Longrightarrow> 4 dvd n \<Longrightarrow> n \<le> int (length data) \<Longrightarrow>
   \<exists>d. four_byte_swap_from i data n = Some d \<and> length d = length data \<and>
       (\<forall>j<length data. d ! j =
          (if i \<le> int j \<and> int j < n then data ! partner4 j else data ! j))"
proof (induction i data n rule: four_byte_swap_from.induct)
  case (1 i data n)
  show ?case
  proof (cases "i < n")
    case False
    then show ?thesis
      by (subst four_byte_swap_from.simps) auto
  next
    case True
    let ?d1 = "data[nat i := data ! nat (i + 3), nat (i + 3) := data ! nat i,
                    nat (i + 1) := data ! nat (i + 2), nat (i + 2) := data ! nat (i + 1)]"
    from "1.prems"(2,3) obtain a b where ab: "i = 4 * a" "n = 4 * b"
      by (auto elim!: dvdE)
    from True ab have "a < b" by simp
    with ab have lt: "i + 3 < n" by linarith
    with "1.prems"(1,4) have inb: "0 \<le> i \<and> i + 3 < int (length data)"
      by linarith
    have "0 \<le> i + 4" using "1.prems"(1) by linarith
    moreover have "4 dvd (i + 4)" using "1.prems"(2) by simp
    moreover note "1.prems"(3)
    moreover have "n \<le> int (length ?d1)" using "1.prems"(4) by simp
    ultimately have ih: "\<exists>d. four_byte_swap_from (i + 4) ?d1 n = Some d \<and> length d = length ?d1 \<and>
       (\<forall>j<length ?d1. d ! j =
          (if i + 4 \<le> int j \<and> int j < n then ?d1 ! partner4 j else ?d1 ! j))"
      by (rule "1.IH" [OF True inb])
    from ih obtain d where dd:
      "four_byte_swap_from (i + 4) ?d1 n = Some d \<and> length d = length ?d1 \<and>
       (\<forall>j<length ?d1. d ! j =
          (if i + 4 \<le> int j \<and> int j < n then ?d1 ! partner4 j else ?d1 ! j))"
      by (rule exE)
    from dd have d: "four_byte_swap_from (i + 4) ?d1 n = Some d" "length d = length ?d1"
      by (rule conjunct1, rule conjunct2 [THEN conjunct1])
    from dd have nth: "\<forall>j<length ?d1. d ! j =
          (if i + 4 \<le> int j \<and> int j < n then ?d1 ! partner4 j else ?d1 ! j)"
      by (rule conjunct2 [THEN conjunct2])
    have "four_byte_swap_from i data n = Some d"
      by (subst four_byte_swap_from.simps, simp only: True inb if_True simp_thms, rule d(1))
    moreover have "length d = length data"
      using d(2) by simp
    moreover have "\<forall>j<length data. d ! j =
          (if i \<le> int j \<and> int j < n then data ! partner4 j else data ! j)"
    proof (intro allI impI)
      fix j assume j: "j < length data"
      define k where "k = nat i"
      have ni: "nat (i + 1) = k + 1" "nat (i + 2) = k + 2" "nat (i + 3) = k + 3" "nat i = k"
        using inb by (simp_all add: k_def nat_add_distrib)
      have ik: "i = int k" using inb by (simp add: k_def)
      have "0 \<le> a" using ab(1) inb by linarith
      then have kq: "k = 4 * nat a" using ab(1) by (simp add: k_def nat_mult_distrib)
      then have dk: "4 dvd k" by simp
      have kl: "k + 3 < length data" using inb ik by simp
      from nth j have dj: "d ! j =
          (if i + 4 \<le> int j \<and> int j < n then ?d1 ! partner4 j else ?d1 ! j)"
        by simp
      consider "j = k" | "j = k + 1" | "j = k + 2" | "j = k + 3" | "j < k" | "k + 4 \<le> j"
        by linarith
      then show "d ! j = (if i \<le> int j \<and> int j < n then data ! partner4 j else data ! j)"
      proof cases
        case 1
        have pj: "partner4 j = k + 3"
          using partner4_at [of 0 "nat a"] 1 kq by simp
        have a: "i \<le> int j" "int j < n" "\<not> i + 4 \<le> int j"
          using 1 ik lt by simp_all
        from dj a have "d ! j = ?d1 ! j" by simp
        also have "\<dots> = data ! (k + 3)" using 1 kl ni by simp
        finally show ?thesis using a pj by simp
      next
        case 2
        have pj: "partner4 j = k + 2"
          using partner4_at [of 1 "nat a"] 2 kq by simp
        have a: "i \<le> int j" "int j < n" "\<not> i + 4 \<le> int j"
          using 2 ik lt by simp_all
        from dj a have "d ! j = ?d1 ! j" by simp
        also have "\<dots> = data ! (k + 2)" using 2 kl ni by simp
        finally show ?thesis using a pj by simp
      next
        case 3
        have pj: "partner4 j = k + 1"
          using partner4_at [of 2 "nat a"] 3 kq by simp
        have a: "i \<le> int j" "int j < n" "\<not> i + 4 \<le> int j"
          using 3 ik lt by simp_all
        from dj a have "d ! j = ?d1 ! j" by simp
        also have "\<dots> = data ! (k + 1)" using 3 kl ni by simp
        finally show ?thesis using a pj by simp
      next
        case 4
        have pj: "partner4 j = k"
          using partner4_at [of 3 "nat a"] 4 kq by simp
        have a: "i \<le> int j" "int j < n" "\<not> i + 4 \<le> int j"
          using 4 ik lt by simp_all
        from dj a have "d ! j = ?d1 ! j" by simp
        also have "\<dots> = data ! k" using 4 kl ni by simp
        finally show ?thesis using a pj by simp
      next
        case 5
        then have a: "\<not> i \<le> int j" "\<not> i + 4 \<le> int j" using ik by linarith+
        from dj a have "d ! j = ?d1 ! j" by simp
        also have "\<dots> = data ! j" using 5 ni by simp
        finally show ?thesis using a by simp
      next
        case 6
        then have r: "i + 4 \<le> int j" "i \<le> int j" using ik by linarith+
        have "4 dvd (k + 4)" using dk by simp
        from partner4_ge [OF this 6] have p: "k + 4 \<le> partner4 j" .
        show ?thesis
        proof (cases "int j < n")
          case True
          with dj r have "d ! j = ?d1 ! partner4 j" by simp
          also have "\<dots> = data ! partner4 j" using p ni by simp
          finally show ?thesis using r True by simp
        next
          case False
          with dj have "d ! j = ?d1 ! j" by simp
          also have "\<dots> = data ! j" using 6 ni by simp
          finally show ?thesis using False by simp
        qed
      qed
    qed
    ultimately show ?thesis by blast
  qed
qed

lemma four_byte_swap_nth:
  assumes "n \<le> int (length data)"
  shows "\<exists>d. four_byte_swap data n = Some d \<and> length d = length data \<and>
       (\<forall>j<length data. d ! j =
          (if j < nat (4 * (n div 4)) then data ! partner4 j else data ! j))"
proof -
  have "n = 4 * (n div 4) + n mod 4" and "0 \<le> n mod 4" by simp_all
  then have "4 * (n div 4) \<le> n" by linarith
  with assms have "4 * (n div 4) \<le> int (length data)" by simp
  from four_byte_swap_from_nth [of 0 "4 * (n div 4)" data, OF _ _ _ this]
  obtain d where d: "four_byte_swap_from 0 data (4 * (n div 4)) = Some d" "length d = length data"
    and nth: "\<forall>j<length data. d ! j =
          (if 0 \<le> int j \<and> int j < 4 * (n div 4) then data ! partner4 j else data ! j)"
    by auto
  have "\<forall>j<length data. d ! j =
          (if j < nat (4 * (n div 4)) then data ! partner4 j else data ! j)"
  proof (intro allI impI)
    fix j assume "j < length data"
    moreover have "int j < 4 * (n div 4) \<longleftrightarrow> j < nat (4 * (n div 4))" by linarith
    ultimately show "d ! j = (if j < nat (4 * (n div 4)) then data ! partner4 j else data ! j)"
      using nth by simp
  qed
  moreover have "four_byte_swap data n = four_byte_swap_from 0 data (4 * (n div 4))"
    by (simp only: four_byte_swap_def and_not_3_int)
  ultimately show ?thesis using d by simp
qed

lemma four_byte_swap_twice:
  assumes "n \<le> int (length data)"
  shows "Option.bind (four_byte_swap data n) (\<lambda>d. four_byte_swap d n) = Some data"
proof -
  let ?m = "nat (4 * (n div 4))"
  have m: "4 dvd ?m" by (simp add: nat_mult_distrib)
  from four_byte_swap_nth [OF assms] obtain d where
    d: "four_byte_swap data n = Some d" "length d = length data"
    and nth: "\<forall>j<length data. d ! j = (if j < ?m then data ! partner4 j else data ! j)"
    by blast
  have "n = 4 * (n div 4) + n mod 4" and "0 \<le> n mod 4" by simp_all
  then have "4 * (n div 4) \<le> n" by linarith
  with assms have mle: "?m \<le> length data" by linarith
  from d(2) assms have "n \<le> int (length d)" by simp
  from four_byte_swap_nth [OF this] obtain e where
    e: "four_byte_swap d n = Some e" "length e = length d"
    and nth': "\<forall>j<length d. e ! j = (if j < ?m then d ! partner4 j else d ! j)"
    by blast
  have "e = data"
  proof (rule nth_equalityI)
    show "length e = length data" using e(2) d(2) by simp
  next
    fix j assume "j < length e"
    then have j: "j < length data" using e(2) d(2) by simp
    show "e ! j = data ! j"
    proof (cases "j < ?m")
      case True
      then have p: "partner4 j < ?m" using m by (rule partner4_less [rotated])
      with mle have "partner4 j < length data" by simp
      with nth p have "d ! partner4 j = data ! partner4 (partner4 j)" by simp
      moreover from nth' j d(2) True have "e ! j = d ! partner4 j" by simp
      ultimately show ?thesis by (simp add: partner4_involution)
    next
      case False
      with nth nth' j d(2) show ?thesis by simp
    qed
  qed
  with d(1) e(1) show ?thesis by simp
qed

lemma four_byte_swap_tail:
  assumes "n \<le> int (length data)"
  shows "map_option (drop (nat (4 * (n div 4)))) (four_byte_swap data n) =
           Some (drop (nat (4 * (n div 4))) data)"
proof -
  let ?m = "nat (4 * (n div 4))"
  from four_byte_swap_nth [OF assms] obtain d where
    d: "four_byte_swap data n = Some d" "length d = length data"
    and nth: "\<forall>j<length data. d ! j = (if j < ?m then data ! partner4 j else data ! j)"
    by blast
  have "drop ?m d = drop ?m data"
    by (rule nth_equalityI) (use d(2) nth in auto)
  with d(1) show ?thesis by simp
qed


lemma two_byte_swap_length:
  assumes "n \<le> int (length data)"
  shows "map_option length (two_byte_swap data n) = Some (length data)"
  using two_byte_swap_nth [OF assms] by auto

lemma four_byte_swap_length:
  assumes "n \<le> int (length data)"
  shows "map_option length (four_byte_swap data n) = Some (length data)"
  using four_byte_swap_nth [OF assms] by auto

text \<open>
  Claim C9. For every byte buffer, applying the 2-byte group swap twice, and the 4-byte
  group swap twice, gives back the buffer; one application keeps the length and leaves
  every byte from the largest multiple of 2 (of 4) not above the size as it was.
  \<^verbatim>\<open>two_byte_swap(data, size)\<close> and \<^verbatim>\<open>four_byte_swap(data, size)\<close> are run with any
  size \<open>n\<close> the buffer can hold; with \<open>n\<close> the length of the buffer, the bytes left
  alone are its trailing \<open>length data mod 2\<close> (\<open>mod 4\<close>) bytes.
\<close>

theorem byte_swaps_involution:
  "n \<le> int (length data) \<Longrightarrow>
     Option.bind (two_byte_swap data n) (\<lambda>d. two_byte_swap d n) = Some data \<and>
     map_option length (two_byte_swap data n) = Some (length data) \<and>
     map_option (drop (nat (2 * (n div 2)))) (two_byte_swap data n) =
       Some (drop (nat (2 * (n div 2))) data) \<and>
     Option.bind (four_byte_swap data n) (\<lambda>d. four_byte_swap d n) = Some data \<and>
     map_option length (four_byte_swap data n) = Some (length data) \<and>
     map_option (drop (nat (4 * (n div 4)))) (four_byte_swap data n) =
       Some (drop (nat (4 * (n div 4))) data)"
  by (intro conjI two_byte_swap_twice two_byte_swap_length two_byte_swap_tail
      four_byte_swap_twice four_byte_swap_length four_byte_swap_tail)

theorem byte_swaps_involution_witness:
  "two_byte_swap [1, 2, 3, 4, 5, 6, 7] 7 = Some [2, 1, 4, 3, 6, 5, 7] \<and>
   two_byte_swap [2, 1, 4, 3, 6, 5, 7] 7 = Some [1, 2, 3, 4, 5, 6, 7] \<and>
   four_byte_swap [1, 2, 3, 4, 5, 6, 7] 7 = Some [4, 3, 2, 1, 5, 6, 7] \<and>
   four_byte_swap [4, 3, 2, 1, 5, 6, 7] 7 = Some [1, 2, 3, 4, 5, 6, 7] \<and>
   Option.bind (two_byte_swap [1, 2, 3, 4, 5, 6, 7] 7) (\<lambda>d. two_byte_swap d 7) =
     Some [1, 2, 3, 4, 5, 6, 7] \<and>
   Option.bind (four_byte_swap [1, 2, 3, 4, 5, 6, 7] 7) (\<lambda>d. four_byte_swap d 7) =
     Some [1, 2, 3, 4, 5, 6, 7]"
  using byte_swaps_involution [of 7 "[1, 2, 3, 4, 5, 6, 7]"]
  by (simp add: two_byte_swap_def four_byte_swap_def two_byte_swap_from.simps
      four_byte_swap_from.simps)

section \<open>Row padding\<close>

lemma bytesPerRow_int:
  assumes "pad \<in> {1, 2, 4, 8}"
  shows "bytesPerRow bits pad = word_of_int (pad * ((bits + 8 * pad - 1) div (8 * pad)))"
proof -
  have d2: "(bits + 15) div 8 div 2 = (bits + 15) div 16"
    and d4: "(bits + 31) div 8 div 4 = (bits + 31) div 32"
    and d8: "(bits + 63) div 8 div 8 = (bits + 63) div 64"
    by (simp_all add: zdiv_zmult2_eq [symmetric])
  from assms consider "pad = 1" | "pad = 2" | "pad = 4" | "pad = 8" by auto
  then show ?thesis
  proof cases
    case 1
    then show ?thesis by (simp add: bytesPerRow_def drop_bit_eq_div add.commute)
  next
    case 2
    then show ?thesis
      by (simp only: bytesPerRow_def and_not_1_int drop_bit_eq_div) (simp add: d2 add.commute)
  next
    case 3
    then show ?thesis
      by (simp only: bytesPerRow_def and_not_3_int drop_bit_eq_div) (simp add: d4 add.commute)
  next
    case 4
    then show ?thesis
      by (simp only: bytesPerRow_def and_not_7_int drop_bit_eq_div) (simp add: d8 add.commute)
  qed
qed

lemma bytesPerRow_sint:
  assumes "pad \<in> {1, 2, 4, 8}" "0 \<le> bits" "bits + 8 * pad \<le> 2 ^ 18"
  shows "sint (bytesPerRow bits pad) = pad * ((bits + 8 * pad - 1) div (8 * pad))"
proof -
  let ?v = "pad * ((bits + 8 * pad - 1) div (8 * pad))"
  from assms have "0 \<le> ?v \<and> ?v < 2 ^ 15"
    by (elim insertE emptyE; simp; arith)
  then have "signed_take_bit 15 ?v = ?v"
    by (simp add: signed_take_bit_int_eq_self)
  then show ?thesis
    by (simp only: bytesPerRow_int [OF assms(1)] sint_sbintrunc') simp
qed

lemma bytesPerRow_dvd:
  assumes "pad \<in> {1, 2, 4, 8}"
  shows "pad dvd sint (bytesPerRow bits pad)"
proof -
  let ?v = "pad * ((bits + 8 * pad - 1) div (8 * pad))"
  have s: "signed_take_bit 15 ?v = take_bit 16 ?v - 2 ^ 16 * of_bool (bit ?v 15)"
    using signed_take_bit_eq_take_bit_minus [of 15 ?v] by simp
  from assms have "pad dvd 2 ^ 16" by auto
  moreover have "pad dvd ?v" by simp
  ultimately have "pad dvd take_bit 16 ?v" "pad dvd 2 ^ 16 * of_bool (bit ?v 15)"
    by (simp_all add: take_bit_eq_mod dvd_mod)
  then have "pad dvd signed_take_bit 15 ?v"
    unfolding s by (rule dvd_diff)
  then show ?thesis
    by (simp only: bytesPerRow_int [OF assms] sint_sbintrunc') simp
qed

lemma widthBytes_in_range:
  "(push_bit (unat (fmt_glyph f)) 1 :: int) \<in> {1, 2, 4, 8} \<and>
   sint (widthBits m) + 8 * push_bit (unat (fmt_glyph f)) 1 \<le> 2 ^ 18"
proof -
  have "unat (fmt_glyph f) < 4"
    using unsigned_less [of "fmt_glyph f", where ?'a = nat] by simp
  then have "unat (fmt_glyph f) \<in> {0, 1, 2, 3}" by (simp; arith)
  then have p: "(push_bit (unat (fmt_glyph f)) 1 :: int) \<in> {1, 2, 4, 8}"
    by (auto simp add: push_bit_eq_mult)
  have "sint (widthBits m) < 2 ^ 15"
    using sint_lt [of "widthBits m"] by simp
  with p show ?thesis by auto
qed

text \<open>
  Claim C7, as amended. For every pad in \<open>{1, 2, 4, 8}\<close>, \<^verbatim>\<open>bytesPerRow(bits, pad)\<close> is
  a multiple of \<open>pad\<close> for every \<open>bits\<close>, and it is non-decreasing in \<open>bits\<close> as long as
  the byte count fits the \<^verbatim>\<open>int16\<close> it is returned in: for \<open>0 \<le> bits1 \<le> bits2\<close> with
  \<open>bits2 + 8 * pad \<le> 2 ^ 18\<close>. In that range the result is \<open>bits\<close> padded up to the next
  multiple of \<open>8 * pad\<close> bits, counted in bytes. The pad and the width that
  \<^verbatim>\<open>widthBytes\<close> passes always meet these bounds (\<open>widthBytes_in_range\<close>).
\<close>

theorem bytesPerRow_monotone:
  "pad \<in> {1, 2, 4, 8} \<Longrightarrow>
     pad dvd sint (bytesPerRow bits pad) \<and>
     (0 \<le> bits1 \<and> bits1 \<le> bits2 \<and> bits2 + 8 * pad \<le> 2 ^ 18 \<longrightarrow>
        sint (bytesPerRow bits1 pad) \<le> sint (bytesPerRow bits2 pad) \<and>
        sint (bytesPerRow bits2 pad) = pad * ((bits2 + 8 * pad - 1) div (8 * pad)))"
proof (intro conjI impI)
  assume pad: "pad \<in> {1, 2, 4, 8}"
  then show "pad dvd sint (bytesPerRow bits pad)" by (rule bytesPerRow_dvd)
  assume "0 \<le> bits1 \<and> bits1 \<le> bits2 \<and> bits2 + 8 * pad \<le> 2 ^ 18"
  then have b: "0 \<le> bits1" "bits1 \<le> bits2" "bits2 + 8 * pad \<le> 2 ^ 18" by simp_all
  with pad have v1: "sint (bytesPerRow bits1 pad) = pad * ((bits1 + 8 * pad - 1) div (8 * pad))"
    and v2: "sint (bytesPerRow bits2 pad) = pad * ((bits2 + 8 * pad - 1) div (8 * pad))"
    by (simp_all add: bytesPerRow_sint)
  from pad have p: "0 \<le> pad" "0 < 8 * pad" by auto
  from b have "(bits1 + 8 * pad - 1) div (8 * pad) \<le> (bits2 + 8 * pad - 1) div (8 * pad)"
    using p(2) by (intro zdiv_mono1) simp_all
  then show "sint (bytesPerRow bits1 pad) \<le> sint (bytesPerRow bits2 pad)"
    unfolding v1 v2 using p(1) by (rule mult_left_mono)
  show "sint (bytesPerRow bits2 pad) = pad * ((bits2 + 8 * pad - 1) div (8 * pad))"
    by (rule v2)
qed

theorem bytesPerRow_monotone_witness:
  "sint (bytesPerRow 9 4) \<le> sint (bytesPerRow 33 4) \<and> sint (bytesPerRow 33 4) = 8 \<and>
   sint (bytesPerRow 262136 1) = 32767 \<and> (8::int) dvd sint (bytesPerRow 262144 8)"
  using bytesPerRow_monotone [of 4 33 9 33] bytesPerRow_monotone [of 1 0 0 262136]
    bytesPerRow_monotone [of 8 262144 0 0]
  by simp

text \<open>
  The claim as it was stated (every \<open>bits \<ge> 0\<close>) fails where the byte count no longer
  fits \<^verbatim>\<open>int16\<close>: \<open>2 ^ 18\<close> bits are 32768 bytes, which the return type turns into
  -32768, less than the 0 bytes of an empty row.
\<close>

theorem bytesPerRow_monotone_counterexample:
  "sint (bytesPerRow 0 1) = 0 \<and> sint (bytesPerRow 262144 1) = - 32768 \<and>
   \<not> sint (bytesPerRow 0 1) \<le> sint (bytesPerRow 262144 1)"
  by (simp add: bytesPerRow_def drop_bit_eq_div)

section \<open>The font bounding box\<close>

lemma fontbbx_step_fields:
  "sint (leftSideBearing (fontbbx_step b m)) = min (sint (leftSideBearing m)) (sint (leftSideBearing b))"
  "sint (rightSideBearing (fontbbx_step b m)) = max (sint (rightSideBearing m)) (sint (rightSideBearing b))"
  "sint (ascent (fontbbx_step b m)) = max (sint (ascent m)) (sint (ascent b))"
  "sint (descent (fontbbx_step b m)) = max (sint (descent m)) (sint (descent b))"
  by (simp_all add: fontbbx_step_def Let_def word_sless_alt min_def max_def)

lemma fontbbx_loop_fields:
  "sint (leftSideBearing (fontbbx_loop b ms)) =
     fold min (map (\<lambda>m. sint (leftSideBearing m)) ms) (sint (leftSideBearing b))"
  "sint (rightSideBearing (fontbbx_loop b ms)) =
     fold max (map (\<lambda>m. sint (rightSideBearing m)) ms) (sint (rightSideBearing b))"
  "sint (ascent (fontbbx_loop b ms)) =
     fold max (map (\<lambda>m. sint (ascent m)) ms) (sint (ascent b))"
  "sint (descent (fontbbx_loop b ms)) =
     fold max (map (\<lambda>m. sint (descent m)) ms) (sint (descent b))"
  by (induction ms arbitrary: b; simp add: fontbbx_step_fields)+

lemma fontbbx_extremes:
  assumes "fontbbx metrics = Some bbx"
  shows "sint (leftSideBearing bbx) = Min ((\<lambda>m. sint (leftSideBearing m)) ` set metrics)"
    and "sint (rightSideBearing bbx) = Max ((\<lambda>m. sint (rightSideBearing m)) ` set metrics)"
    and "sint (ascent bbx) = Max ((\<lambda>m. sint (ascent m)) ` set metrics)"
    and "sint (descent bbx) = Max ((\<lambda>m. sint (descent m)) ` set metrics)"
proof -
  from assms obtain m ms where ms: "metrics = m # ms" and bbx: "bbx = fontbbx_loop m ms"
    by (auto simp add: fontbbx_def split: list.splits)
  show "sint (leftSideBearing bbx) = Min ((\<lambda>m. sint (leftSideBearing m)) ` set metrics)"
    using Min.set_eq_fold [of "sint (leftSideBearing m)" "map (\<lambda>m. sint (leftSideBearing m)) ms"]
    by (simp add: ms bbx fontbbx_loop_fields)
  show "sint (rightSideBearing bbx) = Max ((\<lambda>m. sint (rightSideBearing m)) ` set metrics)"
    using Max.set_eq_fold [of "sint (rightSideBearing m)" "map (\<lambda>m. sint (rightSideBearing m)) ms"]
    by (simp add: ms bbx fontbbx_loop_fields)
  show "sint (ascent bbx) = Max ((\<lambda>m. sint (ascent m)) ` set metrics)"
    using Max.set_eq_fold [of "sint (ascent m)" "map (\<lambda>m. sint (ascent m)) ms"]
    by (simp add: ms bbx fontbbx_loop_fields)
  show "sint (descent bbx) = Max ((\<lambda>m. sint (descent m)) ` set metrics)"
    using Max.set_eq_fold [of "sint (descent m)" "map (\<lambda>m. sint (descent m)) ms"]
    by (simp add: ms bbx fontbbx_loop_fields)
qed

text \<open>
  Claim C4, as amended. For every non-empty Metrics array the box that the emitter uses
  holds the least \<^verbatim>\<open>leftSideBearing\<close> and the greatest \<^verbatim>\<open>rightSideBearing\<close>,
  \<^verbatim>\<open>ascent\<close> and \<^verbatim>\<open>descent\<close> of exactly the glyphs of the array, and the emitted
  width and height are \<open>max right - min left\<close> and \<open>max ascent + max descent\<close> reduced
  to the signed 16-bit type that \<^verbatim>\<open>widthBits()\<close> and \<^verbatim>\<open>height()\<close> return: they are
  that difference and that sum whenever these lie between -32768 and 32767.
\<close>

theorem fontbbx_width_height:
  "metrics \<noteq> [] \<Longrightarrow>
     map_option (\<lambda>bbx. sint (leftSideBearing bbx)) (fontbbx metrics) =
       Some (Min ((\<lambda>m. sint (leftSideBearing m)) ` set metrics)) \<and>
     map_option (\<lambda>bbx. sint (rightSideBearing bbx)) (fontbbx metrics) =
       Some (Max ((\<lambda>m. sint (rightSideBearing m)) ` set metrics)) \<and>
     map_option (\<lambda>bbx. sint (ascent bbx)) (fontbbx metrics) =
       Some (Max ((\<lambda>m. sint (ascent m)) ` set metrics)) \<and>
     map_option (\<lambda>bbx. sint (descent bbx)) (fontbbx metrics) =
       Some (Max ((\<lambda>m. sint (descent m)) ` set metrics)) \<and>
     map_option emitted_width (fontbbx metrics) =
       Some (signed_take_bit 15
         (Max ((\<lambda>m. sint (rightSideBearing m)) ` set metrics) -
          Min ((\<lambda>m. sint (leftSideBearing m)) ` set metrics))) \<and>
     map_option emitted_height (fontbbx metrics) =
       Some (signed_take_bit 15
         (Max ((\<lambda>m. sint (ascent m)) ` set metrics) +
          Max ((\<lambda>m. sint (descent m)) ` set metrics))) \<and>
     (- (2 ^ 15) \<le> Max ((\<lambda>m. sint (rightSideBearing m)) ` set metrics) -
          Min ((\<lambda>m. sint (leftSideBearing m)) ` set metrics) \<and>
      Max ((\<lambda>m. sint (rightSideBearing m)) ` set metrics) -
          Min ((\<lambda>m. sint (leftSideBearing m)) ` set metrics) < 2 ^ 15 \<longrightarrow>
      map_option emitted_width (fontbbx metrics) =
        Some (Max ((\<lambda>m. sint (rightSideBearing m)) ` set metrics) -
              Min ((\<lambda>m. sint (leftSideBearing m)) ` set metrics))) \<and>
     (- (2 ^ 15) \<le> Max ((\<lambda>m. sint (ascent m)) ` set metrics) +
          Max ((\<lambda>m. sint (descent m)) ` set metrics) \<and>
      Max ((\<lambda>m. sint (ascent m)) ` set metrics) +
          Max ((\<lambda>m. sint (descent m)) ` set metrics) < 2 ^ 15 \<longrightarrow>
      map_option emitted_height (fontbbx metrics) =
        Some (Max ((\<lambda>m. sint (ascent m)) ` set metrics) +
              Max ((\<lambda>m. sint (descent m)) ` set metrics)))"
proof -
  assume "metrics \<noteq> []"
  then obtain bbx where bbx: "fontbbx metrics = Some bbx"
    by (cases metrics) (simp_all add: fontbbx_def)
  note ex = fontbbx_extremes [OF bbx]
  have w: "emitted_width bbx = signed_take_bit 15 (sint (rightSideBearing bbx) - sint (leftSideBearing bbx))"
    by (simp add: emitted_width_def widthBits_def sint_word_ariths)
  have h: "emitted_height bbx = signed_take_bit 15 (sint (ascent bbx) + sint (descent bbx))"
    by (simp add: emitted_height_def height_def sint_word_ariths)
  show ?thesis
    unfolding bbx option.map w h ex
    by (simp add: signed_take_bit_int_eq_self)
qed

theorem fontbbx_width_height_witness:
  "map_option emitted_width
     (fontbbx [metric_new\<lparr>leftSideBearing := 1, rightSideBearing := 6, ascent := 7, descent := 0\<rparr>,
               metric_new\<lparr>leftSideBearing := - 1, rightSideBearing := 4, ascent := 5, descent := 2\<rparr>]) = Some 7
   \<and> map_option emitted_height
     (fontbbx [metric_new\<lparr>leftSideBearing := 1, rightSideBearing := 6, ascent := 7, descent := 0\<rparr>,
               metric_new\<lparr>leftSideBearing := - 1, rightSideBearing := 4, ascent := 5, descent := 2\<rparr>]) = Some 9"
  using fontbbx_width_height [of
     "[metric_new\<lparr>leftSideBearing := 1, rightSideBearing := 6, ascent := 7, descent := 0\<rparr>,
       metric_new\<lparr>leftSideBearing := - 1, rightSideBearing := 4, ascent := 5, descent := 2\<rparr>]"]
  by (simp add: metric_new_def)

text \<open>
  The claim as it was stated fails where the difference leaves the range of \<^verbatim>\<open>int16\<close>:
  one glyph with \<^verbatim>\<open>leftSideBearing = -1\<close> and \<^verbatim>\<open>rightSideBearing = 32767\<close> has
  \<open>max right - min left = 32768\<close>, and the emitted width is -32768.
\<close>

theorem fontbbx_width_counterexample:
  "map_option emitted_width
     (fontbbx [metric_new\<lparr>leftSideBearing := - 1, rightSideBearing := 32767\<rparr>]) = Some (- 32768)
   \<and> Max ((\<lambda>m. sint (rightSideBearing m)) ` set [metric_new\<lparr>leftSideBearing := - 1, rightSideBearing := 32767\<rparr>]) -
     Min ((\<lambda>m. sint (leftSideBearing m)) ` set [metric_new\<lparr>leftSideBearing := - 1, rightSideBearing := 32767\<rparr>]) = 32768"
  by (simp add: fontbbx_def emitted_width_def widthBits_def metric_new_def)

section \<open>Locating a section\<close>

lemma skip_nonpositive: "n \<le> 0 \<Longrightarrow> skip n g = Inr g"
  by (subst skip.simps) simp

lemma skip_enough:
  "0 \<le> n \<Longrightarrow> n \<le> int (length (ifp g)) \<Longrightarrow>
   skip n g = Inr (g\<lparr>ifp := drop (nat n) (ifp g), read_bytes := read_bytes g + n\<rparr>)"
proof (induction n g rule: skip.induct)
  case (1 n g)
  show ?case
  proof (cases "0 < n")
    case False
    with "1.prems" have "n = 0" by simp
    then show ?thesis by (subst skip.simps) simp
  next
    case True
    with "1.prems" obtain a rest where ar: "ifp g = a # rest"
      by (cases "ifp g") auto
    let ?g1 = "g\<lparr>ifp := rest, read_bytes := read_bytes g + 1\<rparr>"
    have r: "read8 g = Inr (a, ?g1)" using ar by (rule read8_Cons)
    have "0 \<le> n - 1" "n - 1 \<le> int (length (ifp ?g1))"
      using True "1.prems" ar by simp_all
    from "1.IH" [OF True this]
    have "skip (n - 1) ?g1 =
            Inr (?g1\<lparr>ifp := drop (nat (n - 1)) (ifp ?g1), read_bytes := read_bytes ?g1 + (n - 1)\<rparr>)"
      by simp
    moreover have "drop (nat n) (a # rest) = drop (nat (n - 1)) rest"
      using True by (simp add: drop_Cons' nat_diff_distrib)
    ultimately show ?thesis
      using True r ar by (subst skip.simps) simp
  qed
qed

lemma skip_eof:
  "int (length (ifp g)) < n \<Longrightarrow> skip n g = Inl (ErrorExit ''unexpected eof'')"
proof (induction n g rule: skip.induct)
  case (1 n g)
  from "1.prems" have pos: "0 < n" by simp
  show ?case
  proof (cases "ifp g")
    case Nil
    then have "read8 g = Inl (ErrorExit ''unexpected eof'')" by (rule read8_Nil)
    with pos show ?thesis by (subst skip.simps) simp
  next
    case (Cons a rest)
    let ?g1 = "g\<lparr>ifp := rest, read_bytes := read_bytes g + 1\<rparr>"
    have r: "read8 g = Inr (a, ?g1)" using Cons by (rule read8_Cons)
    have "int (length (ifp ?g1)) < n - 1"
      using "1.prems" Cons by simp
    from "1.IH" [OF pos this]
    have "skip (n - 1) ?g1 = Inl (ErrorExit ''unexpected eof'')"
      by simp
    then show ?thesis
      using pos r by (subst skip.simps) simp
  qed
qed

lemma seek_not_found:
  "find (\<lambda>t. tbl_type t = ty) tables = None \<Longrightarrow> seek tables ty g = Inr (False, g)"
  by (induction tables) (auto split: if_splits)

lemma seek_found:
  assumes "find (\<lambda>t. tbl_type t = ty) tables = Some t"
  shows "seek tables ty g =
           (let s = signed_take_bit 31 (sint (tbl_offset t) - read_bytes g) in
            if s < 0 then Inl (ErrorInvalidExit ''seek'')
            else bindE (skip s g) (\<lambda>g1. Inr (True, g1)))"
  using assms by (induction tables) (auto split: if_splits)


text \<open>
  Claim C5, as amended. For every section type: when no entry of the table of contents
  has the type, \<^verbatim>\<open>seek\<close> reports not-found, consumes nothing and does not abort. When
  some entry has it, the first such entry counts and \<open>delta = offset - read_bytes\<close>;
  provided \<open>delta\<close> fits the 32-bit \<^verbatim>\<open>int\<close> it is stored in, \<^verbatim>\<open>seek\<close> aborts
  ("seek", invalid PCF file) when \<open>delta < 0\<close>, and otherwise reads \<open>delta\<close> bytes: if
  the input holds that many, it leaves \<^verbatim>\<open>read_bytes\<close> equal to the offset of the entry
  and reports found; if the input ends first, it aborts with "unexpected eof".
\<close>

theorem seek_behaviour:
  "(find (\<lambda>t. tbl_type t = ty) tables = None \<longrightarrow> seek tables ty g = Inr (False, g)) \<and>
   (find (\<lambda>t. tbl_type t = ty) tables = Some t \<and> 0 \<le> read_bytes g \<and> - (2 ^ 31) \<le> delta t g \<longrightarrow>
    seek tables ty g =
      (if delta t g < 0 then Inl (ErrorInvalidExit ''seek'')
       else if delta t g \<le> int (length (ifp g))
       then Inr (True, g\<lparr>ifp := drop (nat (delta t g)) (ifp g), read_bytes := sint (tbl_offset t)\<rparr>)
       else Inl (ErrorExit ''unexpected eof'')))"
proof (intro conjI impI)
  assume "find (\<lambda>t. tbl_type t = ty) tables = None"
  then show "seek tables ty g = Inr (False, g)" by (rule seek_not_found)
next
  assume a: "find (\<lambda>t. tbl_type t = ty) tables = Some t \<and> 0 \<le> read_bytes g \<and> - (2 ^ 31) \<le> delta t g"
  have "sint (tbl_offset t) < 2 ^ 31"
    using sint_lt [of "tbl_offset t"] by simp
  with a have "delta t g < 2 ^ 31" by (simp add: delta_def)
  with a have s: "signed_take_bit 31 (sint (tbl_offset t) - read_bytes g) = delta t g"
    by (simp add: delta_def signed_take_bit_int_eq_self)
  from a have f: "seek tables ty g =
      (if delta t g < 0 then Inl (ErrorInvalidExit ''seek'')
       else bindE (skip (delta t g) g) (\<lambda>g1. Inr (True, g1)))"
    by (simp add: seek_found s)
  show "seek tables ty g =
      (if delta t g < 0 then Inl (ErrorInvalidExit ''seek'')
       else if delta t g \<le> int (length (ifp g))
       then Inr (True, g\<lparr>ifp := drop (nat (delta t g)) (ifp g), read_bytes := sint (tbl_offset t)\<rparr>)
       else Inl (ErrorExit ''unexpected eof''))"
  proof (cases "delta t g < 0")
    case True
    with f show ?thesis by simp
  next
    case nonneg: False
    show ?thesis
    proof (cases "delta t g \<le> int (length (ifp g))")
      case True
      with nonneg have "skip (delta t g) g =
          Inr (g\<lparr>ifp := drop (nat (delta t g)) (ifp g), read_bytes := read_bytes g + delta t g\<rparr>)"
        by (intro skip_enough) simp_all
      moreover have "read_bytes g + delta t g = sint (tbl_offset t)"
        by (simp add: delta_def)
      ultimately show ?thesis using f nonneg True by simp
    next
      case False
      then have "skip (delta t g) g = Inl (ErrorExit ''unexpected eof'')"
        by (intro skip_eof) simp
      with f nonneg False show ?thesis by simp
    qed
  qed
qed

theorem seek_behaviour_witness:
  "seek [\<lparr>tbl_type = PCF_PROPERTIES, tbl_format = BDF_format, tbl_size = 8, tbl_offset = 2\<rparr>,
         \<lparr>tbl_type = PCF_METRICS, tbl_format = BDF_format, tbl_size = 8, tbl_offset = 6\<rparr>]
        PCF_SWIDTHS \<lparr>ifp = [1, 2, 3], read_bytes = 4, format = BDF_format\<rparr> =
     Inr (False, \<lparr>ifp = [1, 2, 3], read_bytes = 4, format = BDF_format\<rparr>)
   \<and> seek [\<lparr>tbl_type = PCF_PROPERTIES, tbl_format = BDF_format, tbl_size = 8, tbl_offset = 2\<rparr>,
         \<lparr>tbl_type = PCF_METRICS, tbl_format = BDF_format, tbl_size = 8, tbl_offset = 6\<rparr>]
        PCF_METRICS \<lparr>ifp = [1, 2, 3], read_bytes = 4, format = BDF_format\<rparr> =
     Inr (True, \<lparr>ifp = [3], read_bytes = 6, format = BDF_format\<rparr>)
   \<and> seek [\<lparr>tbl_type = PCF_PROPERTIES, tbl_format = BDF_format, tbl_size = 8, tbl_offset = 2\<rparr>,
         \<lparr>tbl_type = PCF_METRICS, tbl_format = BDF_format, tbl_size = 8, tbl_offset = 6\<rparr>]
        PCF_PROPERTIES \<lparr>ifp = [1, 2, 3], read_bytes = 4, format = BDF_format\<rparr> =
     Inl (ErrorInvalidExit ''seek'')"
  using
    seek_behaviour [of PCF_SWIDTHS
      "[\<lparr>tbl_type = PCF_PROPERTIES, tbl_format = BDF_format, tbl_size = 8, tbl_offset = 2\<rparr>,
        \<lparr>tbl_type = PCF_METRICS, tbl_format = BDF_format, tbl_size = 8, tbl_offset = 6\<rparr>]"
      "\<lparr>ifp = [1, 2, 3], read_bytes = 4, format = BDF_format\<rparr>"]
    seek_behaviour [of PCF_METRICS
      "[\<lparr>tbl_type = PCF_PROPERTIES, tbl_format = BDF_format, tbl_size = 8, tbl_offset = 2\<rparr>,
        \<lparr>tbl_type = PCF_METRICS, tbl_format = BDF_format, tbl_size = 8, tbl_offset = 6\<rparr>]"
      "\<lparr>ifp = [1, 2, 3], read_bytes = 4, format = BDF_format\<rparr>"
      "\<lparr>tbl_type = PCF_METRICS, tbl_format = BDF_format, tbl_size = 8, tbl_offset = 6\<rparr>"]
    seek_behaviour [of PCF_PROPERTIES
      "[\<lparr>tbl_type = PCF_PROPERTIES, tbl_format = BDF_format, tbl_size = 8, tbl_offset = 2\<rparr>,
        \<lparr>tbl_type = PCF_METRICS, tbl_format = BDF_format, tbl_size = 8, tbl_offset = 6\<rparr>]"
      "\<lparr>ifp = [1, 2, 3], read_bytes = 4, format = BDF_format\<rparr>"
      "\<lparr>tbl_type = PCF_PROPERTIES, tbl_format = BDF_format, tbl_size = 8, tbl_offset = 2\<rparr>"]
  by (simp add: delta_def PCF_PROPERTIES_def PCF_METRICS_def PCF_SWIDTHS_def)

text \<open>
  The claim as it was stated leaves no room for the third outcome: with \<open>delta = 80\<close>
  and three bytes of input left, \<^verbatim>\<open>seek\<close> neither reports found nor aborts for a
  backward seek; \<^verbatim>\<open>skip\<close> runs into the end of the input.
\<close>

theorem seek_eof_counterexample:
  "seek [\<lparr>tbl_type = PCF_METRICS, tbl_format = BDF_format, tbl_size = 8, tbl_offset = 100\<rparr>]
        PCF_METRICS \<lparr>ifp = [1, 2, 3], read_bytes = 20, format = BDF_format\<rparr> =
     Inl (ErrorExit ''unexpected eof'')
   \<and> delta \<lparr>tbl_type = PCF_METRICS, tbl_format = BDF_format, tbl_size = 8, tbl_offset = 100\<rparr>
        \<lparr>ifp = [1, 2, 3], read_bytes = 20, format = BDF_format\<rparr> = 80"
  by (simp add: delta_def skip_eof)

section \<open>The glyph count of the bitmaps section\<close>

lemma bindE_error:
  assumes "bindE r f = Inl e"
  obtains "r = Inl e" | x where "r = Inr x" "f x = Inl e"
  using assms by (cases r) (auto simp add: bindE_def)

lemma read8_error: "read8 g = Inl e \<Longrightarrow> e = ErrorExit ''unexpected eof''"
  by (auto simp add: read8_def split: list.splits)

lemma read_int32_big_error: "read_int32_big g = Inl e \<Longrightarrow> e = ErrorExit ''unexpected eof''"
  unfolding read_int32_big_def
  by (auto elim!: bindE_error dest: read8_error)

lemma read_int32_little_error: "read_int32_little g = Inl e \<Longrightarrow> e = ErrorExit ''unexpected eof''"
  unfolding read_int32_little_def
  by (auto elim!: bindE_error dest: read8_error)

lemma read_int32_error: "read_int32 g = Inl e \<Longrightarrow> e = ErrorExit ''unexpected eof''"
  by (auto simp add: read_int32_def dest: read_int32_big_error read_int32_little_error split: if_splits)

lemma read_uint32s_error: "read_uint32s n g = Inl e \<Longrightarrow> e = ErrorExit ''unexpected eof''"
proof (induction n arbitrary: g)
  case 0
  then show ?case by simp
next
  case (Suc n)
  from Suc.prems show ?case
    by (auto simp add: read_uint32_def elim!: bindE_error dest: read_int32_error Suc.IH)
qed

lemma read_byte8s_error: "read_byte8s n g = Inl e \<Longrightarrow> e = ErrorExit ''unexpected eof''"
  by (auto simp add: read_byte8s_def split: if_splits)

lemma check_int32_min_error:
  "check_int32_min str v mn = Inl e \<Longrightarrow> e = CheckInt32Min str v mn \<and> v <s mn"
  by (auto simp add: check_int32_min_def word_sless_alt word_sle_eq split: if_splits)

lemma undefined_if_none_error: "undefined_if_none str r = Inl e \<Longrightarrow> e = Undefined str"
  by (auto simp add: undefined_if_none_def split: option.splits)

lemma read_int32_little_bytes:
  "read_int32_little \<lparr>ifp = a # b # c # d # rest, read_bytes = k, format = f\<rparr> =
     Inr (make_int32 d c b a, \<lparr>ifp = rest, read_bytes = k + 4, format = f\<rparr>)"
  by (simp add: read_int32_little_def read8_def)

lemma read_int32_big_bytes:
  "read_int32_big \<lparr>ifp = a # b # c # d # rest, read_bytes = k, format = f\<rparr> =
     Inr (make_int32 a b c d, \<lparr>ifp = rest, read_bytes = k + 4, format = f\<rparr>)"
  by (simp add: read_int32_big_def read8_def)

lemma GLYPHPADOPTIONS_Suc: "GLYPHPADOPTIONS = Suc (Suc (Suc (Suc 0)))"
  by (simp add: GLYPHPADOPTIONS_def)

text \<open>
  Claim C2, as amended. When the bitmaps section is decoded, the glyph count read from the
  section must be at least the Metrics glyph count: once the format word (of the default
  format) and the count \<open>n\<close> are read, decoding aborts with the out-of-range exit of
  \<^verbatim>\<open>check_int32_min\<close> for \<^verbatim>\<open>nBitmaps\<close> exactly when \<open>n < nMetrics\<close>, compared as signed
  32-bit integers. A count greater than \<^verbatim>\<open>nMetrics\<close> is accepted and decoding goes on: the
  outcome is the one of a run whose Metrics count equals \<open>n\<close>, namely what the remaining
  steps (offsets, sizes, size check, bitmap bytes, normalisation) give.
\<close>

theorem read_bitmaps_section_count:
  "read_format32_little g = Inr (f, g0) \<Longrightarrow> fmt_id f = PCF_DEFAULT_FORMAT \<Longrightarrow>
   read_int32 (g0\<lparr>format := f\<rparr>) = Inr (n, g2) \<Longrightarrow>
     ((read_bitmaps_section nMetrics g = Inl (CheckInt32Min ''nBitmaps'' n nMetrics)) = (n <s nMetrics)) \<and>
     (nMetrics \<le>s n \<longrightarrow>
        read_bitmaps_section nMetrics g = read_bitmaps_section n g \<and>
        read_bitmaps_section nMetrics g =
          bindE (read_uint32s (nat (sint n)) g2) (\<lambda>(offs, g3).
          bindE (read_uint32s GLYPHPADOPTIONS g3) (\<lambda>(sizes, g4).
          bindE (check_int32_min ''bitmapSize'' (sizes ! unat (fmt_glyph f)) 0) (\<lambda>u.
          bindE (read_byte8s (nat (sint (sizes ! unat (fmt_glyph f)))) g4) (\<lambda>(buf, g5).
          bindE (undefined_if_none ''bitmaps''
                   (normalize_bitmaps f buf (sint (sizes ! unat (fmt_glyph f))))) (\<lambda>buf1.
          Inr (\<lparr>nBitmaps = n, bitmapOffsets = offs, bitmapSizes = sizes,
                bitmapSize = sizes ! unat (fmt_glyph f), bitmap_bytes = buf1\<rparr>, g5)))))))"
proof -
  assume h: "read_format32_little g = Inr (f, g0)" "fmt_id f = PCF_DEFAULT_FORMAT"
    "read_int32 (g0\<lparr>format := f\<rparr>) = Inr (n, g2)"
  have same: "check_int32_min ''nBitmaps'' n n = Inr ()"
    by (simp add: check_int32_min_def)
  show ?thesis
  proof (cases "n <s nMetrics")
    case True
    then have "check_int32_min ''nBitmaps'' n nMetrics = Inl (CheckInt32Min ''nBitmaps'' n nMetrics)"
      by (simp add: check_int32_min_def word_sless_alt word_sle_eq)
    with h have "read_bitmaps_section nMetrics g = Inl (CheckInt32Min ''nBitmaps'' n nMetrics)"
      by (simp add: read_bitmaps_section_def)
    moreover from True have "\<not> nMetrics \<le>s n"
      by (simp add: word_sless_alt word_sle_eq)
    ultimately show ?thesis using True by simp
  next
    case False
    then have le: "nMetrics \<le>s n"
      by (simp add: word_sless_alt word_sle_eq)
    then have c: "check_int32_min ''nBitmaps'' n nMetrics = Inr ()"
      by (simp add: check_int32_min_def)
    have rest: "read_bitmaps_section nMetrics g =
          bindE (read_uint32s (nat (sint n)) g2) (\<lambda>(offs, g3).
          bindE (read_uint32s GLYPHPADOPTIONS g3) (\<lambda>(sizes, g4).
          bindE (check_int32_min ''bitmapSize'' (sizes ! unat (fmt_glyph f)) 0) (\<lambda>u.
          bindE (read_byte8s (nat (sint (sizes ! unat (fmt_glyph f)))) g4) (\<lambda>(buf, g5).
          bindE (undefined_if_none ''bitmaps''
                   (normalize_bitmaps f buf (sint (sizes ! unat (fmt_glyph f))))) (\<lambda>buf1.
          Inr (\<lparr>nBitmaps = n, bitmapOffsets = offs, bitmapSizes = sizes,
                bitmapSize = sizes ! unat (fmt_glyph f), bitmap_bytes = buf1\<rparr>, g5))))))"
      using h c by (simp add: read_bitmaps_section_def Let_def)
    have eq: "read_bitmaps_section nMetrics g = read_bitmaps_section n g"
      using h c same by (simp add: read_bitmaps_section_def Let_def)
    have "read_bitmaps_section nMetrics g \<noteq> Inl (CheckInt32Min ''nBitmaps'' n nMetrics)"
    proof
      assume "read_bitmaps_section nMetrics g = Inl (CheckInt32Min ''nBitmaps'' n nMetrics)"
      with h c show False
        unfolding read_bitmaps_section_def Let_def
        by (auto elim!: bindE_error dest!: read_uint32s_error read_byte8s_error
            check_int32_min_error undefined_if_none_error)
    qed
    with False le eq rest show ?thesis by (simp only: simp_thms)
  qed
qed

theorem read_bitmaps_section_count_witness:
  "read_bitmaps_section 3
     \<lparr>ifp = [0x0C, 0, 0, 0,  0, 0, 0, 2,  0, 0, 0, 0,  0, 0, 0, 1,
             0, 0, 0, 2,  0, 0, 0, 4,  0, 0, 0, 8,  0, 0, 0, 16,  0xFF, 0x81],
      read_bytes = 100, format = BDF_format\<rparr> = Inl (CheckInt32Min ''nBitmaps'' 2 3)
   \<and> read_bitmaps_section 2
     \<lparr>ifp = [0x0C, 0, 0, 0,  0, 0, 0, 2,  0, 0, 0, 0,  0, 0, 0, 1,
             0, 0, 0, 2,  0, 0, 0, 4,  0, 0, 0, 8,  0, 0, 0, 16,  0xFF, 0x81],
      read_bytes = 100, format = BDF_format\<rparr> \<noteq> Inl (CheckInt32Min ''nBitmaps'' 2 2)
   \<and> read_bitmaps_section 1
     \<lparr>ifp = [0x0C, 0, 0, 0,  0, 0, 0, 2,  0, 0, 0, 0,  0, 0, 0, 1,
             0, 0, 0, 2,  0, 0, 0, 4,  0, 0, 0, 8,  0, 0, 0, 16,  0xFF, 0x81],
      read_bytes = 100, format = BDF_format\<rparr> =
     read_bitmaps_section 2
     \<lparr>ifp = [0x0C, 0, 0, 0,  0, 0, 0, 2,  0, 0, 0, 0,  0, 0, 0, 1,
             0, 0, 0, 2,  0, 0, 0, 4,  0, 0, 0, 8,  0, 0, 0, 16,  0xFF, 0x81],
      read_bytes = 100, format = BDF_format\<rparr>"
proof -
  let ?ga = "\<lparr>ifp = [0x0C, 0, 0, 0,  0, 0, 0, 2,  0, 0, 0, 0,  0, 0, 0, 1,
             0, 0, 0, 2,  0, 0, 0, 4,  0, 0, 0, 8,  0, 0, 0, 16,  0xFF, 0x81],
      read_bytes = 100, format = BDF_format\<rparr>"
  let ?gb = "\<lparr>ifp = [0, 0, 0, 2,  0, 0, 0, 0,  0, 0, 0, 1,
             0, 0, 0, 2,  0, 0, 0, 4,  0, 0, 0, 8,  0, 0, 0, 16,  0xFF, 0x81],
      read_bytes = 104, format = BDF_format\<rparr>"
  let ?gc = "\<lparr>ifp = [0, 0, 0, 0,  0, 0, 0, 1,
             0, 0, 0, 2,  0, 0, 0, 4,  0, 0, 0, 8,  0, 0, 0, 16,  0xFF, 0x81],
      read_bytes = 108, format = BDF_format\<rparr>"
  have a: "read_format32_little ?ga = Inr (BDF_format, ?gb)"
    by (simp add: read_format32_little_def read_int32_little_bytes make_int32_def)
      (simp add: BDF_format_def PCF_DEFAULT_FORMAT_def)
  have b: "fmt_id BDF_format = PCF_DEFAULT_FORMAT"
    by (simp add: BDF_format_def)
  have "read_int32_big ?gb = Inr (2, ?gc)"
    by (simp add: read_int32_big_bytes make_int32_def)
  then have c: "read_int32 (?gb\<lparr>format := BDF_format\<rparr>) = Inr (2, ?gc)"
    by (simp add: read_int32_def is_little_endian_def BDF_format_def)
  have d: "(2::int32) <s 3" "\<not> (2::int32) <s 2" "(1::int32) \<le>s 2"
    by (simp_all add: word_sless_alt word_sle_eq)
  have e3: "read_bitmaps_section 3 ?ga = Inl (CheckInt32Min ''nBitmaps'' 2 3)"
    using read_bitmaps_section_count [OF a b c, of 3, THEN conjunct1] d(1) by (rule iffD2)
  have e2: "read_bitmaps_section 2 ?ga \<noteq> Inl (CheckInt32Min ''nBitmaps'' 2 2)"
    using d(2) read_bitmaps_section_count [OF a b c, of 2, THEN conjunct1, THEN iffD1]
    by (rule contrapos_nn)
  have e1: "read_bitmaps_section 1 ?ga = read_bitmaps_section 2 ?ga"
    using read_bitmaps_section_count [OF a b c, of 1, THEN conjunct2, THEN mp, OF d(3)]
    by (rule conjunct1)
  from e3 e2 e1 show ?thesis by (intro conjI)
qed

text \<open>
  The claim as it was stated (abort whenever the counts differ) fails: a section that
  announces two glyphs decodes to its end although the Metrics section had one.
\<close>

theorem read_bitmaps_section_count_counterexample:
  "read_bitmaps_section 1
     \<lparr>ifp = [0x0C, 0, 0, 0,  0, 0, 0, 2,  0, 0, 0, 0,  0, 0, 0, 1,
             0, 0, 0, 2,  0, 0, 0, 4,  0, 0, 0, 8,  0, 0, 0, 16,  0xFF, 0x81],
      read_bytes = 100, format = BDF_format\<rparr> =
   Inr (\<lparr>nBitmaps = 2, bitmapOffsets = [0, 1], bitmapSizes = [2, 4, 8, 16], bitmapSize = 2,
         bitmap_bytes = [0xFF, 0x81]\<rparr>,
        \<lparr>ifp = [], read_bytes = 134, format = BDF_format\<rparr>)"
  apply (simp add: read_bitmaps_section_def read_format32_little_def read_int32_little_bytes
      make_int32_def PCF_DEFAULT_FORMAT_def)
  apply (simp add: read_int32_def is_little_endian_def read_int32_big_bytes make_int32_def
      check_int32_min_def word_sle_eq)
  apply (subst numeral_2_eq_2)
  apply (simp only: GLYPHPADOPTIONS_Suc read_uint32s.simps read_uint32_def read_int32_def
      is_little_endian_def read_int32_big_bytes bindE_Inr bindE_Inl prod.case globals.simps
      format32.simps)
  apply (simp add: read_int32_big_bytes make_int32_def)
  apply (simp add: read_byte8s_def)
  apply (simp add: normalize_bitmaps_def BDF_format_def undefined_if_none_def PCF_DEFAULT_FORMAT_def)
  done

section \<open>Absent integer properties\<close>

lemma get_property_value_absent:
  "\<forall>p\<in>set props. prop_name p \<noteq> name \<Longrightarrow> get_property_value name props = Inr (- 1)"
  by (induction props) auto

lemma get_property_value_append:
  "\<forall>p\<in>set props. prop_name p \<noteq> name \<Longrightarrow>
   get_property_value name (props @ qs) = get_property_value name qs"
  by (induction props) auto

text \<open>
  Claim C10. For every list of properties and every name that matches none of them,
  \<^verbatim>\<open>get_property_value\<close> returns -1, an ordinary value: extending the list by an integer
  property of that name with the value -1 gives the same answer, so the caller cannot tell
  the two apart. In particular, without a \<^verbatim>\<open>RESOLUTION_X\<close> property the resolution
  of the swidth computation is the one of the fallback branch \<^verbatim>\<open>rx <= 0\<close>, computed
  from \<^verbatim>\<open>RESOLUTION\<close>.
\<close>

theorem get_property_value_sentinel:
  "\<forall>p\<in>set props. prop_name p \<noteq> name \<Longrightarrow>
     get_property_value name props = Inr (- 1) \<and>
     get_property_value name
       (props @ [\<lparr>prop_name = name, isStringProp = False, prop_value = V (- 1)\<rparr>]) =
       get_property_value name props \<and>
     (name = ''RESOLUTION_X'' \<longrightarrow> resolution_x rnd props = resolution_fallback rnd props)"
proof -
  assume absent: "\<forall>p\<in>set props. prop_name p \<noteq> name"
  then have a: "get_property_value name props = Inr (- 1)"
    by (rule get_property_value_absent)
  have b: "get_property_value name
       (props @ [\<lparr>prop_name = name, isStringProp = False, prop_value = V (- 1)\<rparr>]) = Inr (- 1)"
    using absent by (simp add: get_property_value_append sv_v_def)
  have c: "name = ''RESOLUTION_X'' \<longrightarrow> resolution_x rnd props = resolution_fallback rnd props"
    using a by (auto simp add: resolution_x_def word_sle_eq)
  from a b c show ?thesis by simp
qed

theorem get_property_value_sentinel_witness:
  "get_property_value ''RESOLUTION_X''
     [\<lparr>prop_name = ''POINT_SIZE'', isStringProp = False, prop_value = V 100\<rparr>,
      \<lparr>prop_name = ''RESOLUTION'', isStringProp = False, prop_value = V 103\<rparr>] = Inr (- 1)
   \<and> get_property_value ''RESOLUTION_X''
     [\<lparr>prop_name = ''POINT_SIZE'', isStringProp = False, prop_value = V 100\<rparr>,
      \<lparr>prop_name = ''RESOLUTION'', isStringProp = False, prop_value = V 103\<rparr>,
      \<lparr>prop_name = ''RESOLUTION_X'', isStringProp = False, prop_value = V (- 1)\<rparr>] = Inr (- 1)
   \<and> resolution_x (\<lambda>x. x)
     [\<lparr>prop_name = ''POINT_SIZE'', isStringProp = False, prop_value = V 100\<rparr>,
      \<lparr>prop_name = ''RESOLUTION'', isStringProp = False, prop_value = V 103\<rparr>] = Inr 74"
  using get_property_value_sentinel [of
     "[\<lparr>prop_name = ''POINT_SIZE'', isStringProp = False, prop_value = V 100\<rparr>,
       \<lparr>prop_name = ''RESOLUTION'', isStringProp = False, prop_value = V 103\<rparr>]"
     "''RESOLUTION_X''" "\<lambda>x. x"]
  by (simp add: resolution_fallback_def sv_v_def int_of_double_def)

section \<open>The computed scalable width\<close>

text \<open>
  Interval bounds through the four divisions of the fallback, valid for every rounding
  that satisfies \<open>double_rounding\<close>.
\<close>

lemma rnd_interval:
  assumes "double_rounding rnd" "1 / 1000 \<le> lo" "lo \<le> x" "x \<le> hi" "hi \<le> 10 ^ 7"
  shows "lo * (1 - 1 / 10 ^ 14) \<le> rnd x" and "rnd x \<le> hi * (1 + 1 / 10 ^ 14)"
proof -
  from assms have x: "1 / 1000 \<le> x" "0 < x" "x \<le> 10 ^ 7" by simp_all
  have "(10::real) ^ 7 \<le> 2 ^ 1023" by simp
  with x have "\<bar>x\<bar> \<le> 2 ^ 1023" by simp
  with assms(1) have "\<bar>rnd x - x\<bar> \<le> \<bar>x\<bar> / 2 ^ 52 + 1 / 2 ^ 1074"
    by (simp add: double_rounding_def)
  then have e: "\<bar>rnd x - x\<bar> \<le> x / 2 ^ 52 + 1 / 2 ^ 1074"
    using x by simp
  have k: "(1::real) / 2 ^ 52 + 1000 / 2 ^ 1074 \<le> 1 / 10 ^ 14" by simp
  have "(1::real) / 2 ^ 1074 \<le> x * (1000 / 2 ^ 1074)"
    using x(1) by (simp add: field_simps)
  then have "x / 2 ^ 52 + 1 / 2 ^ 1074 \<le> x * (1 / 2 ^ 52 + 1000 / 2 ^ 1074)"
    by (simp add: algebra_simps)
  also have "\<dots> \<le> x * (1 / 10 ^ 14)"
    using k x(2) by (rule mult_left_mono [OF _ less_imp_le])
  finally have "x / 2 ^ 52 + 1 / 2 ^ 1074 \<le> x * (1 / 10 ^ 14)" .
  define t where "t = x * (1 / 10 ^ 14)"
  with e \<open>x / 2 ^ 52 + 1 / 2 ^ 1074 \<le> x * (1 / 10 ^ 14)\<close> have t: "\<bar>rnd x - x\<bar> \<le> t"
    by simp
  have eq: "x * (1 - 1 / 10 ^ 14) = x - t" "x * (1 + 1 / 10 ^ 14) = x + t"
    by (simp_all add: t_def algebra_simps)
  have lo: "x * (1 - 1 / 10 ^ 14) \<le> rnd x" and hi: "rnd x \<le> x * (1 + 1 / 10 ^ 14)"
    unfolding eq using t by linarith+
  have "lo * (1 - 1 / 10 ^ 14) \<le> x * (1 - 1 / 10 ^ 14)"
    using assms(3) by (intro mult_right_mono) simp_all
  with lo show "lo * (1 - 1 / 10 ^ 14) \<le> rnd x" by simp
  have "x * (1 + 1 / 10 ^ 14) \<le> hi * (1 + 1 / 10 ^ 14)"
    using assms(4) by (intro mult_right_mono) simp_all
  with hi show "rnd x \<le> hi * (1 + 1 / 10 ^ 14)" by simp
qed

lemma rnd_abs:
  assumes "double_rounding rnd" "\<bar>x\<bar> \<le> B" "B \<le> 10 ^ 7"
  shows "\<bar>rnd x\<bar> \<le> B + 1"
proof -
  have "(10::real) ^ 7 \<le> 2 ^ 1023" by simp
  with assms have "\<bar>x\<bar> \<le> 2 ^ 1023" by simp
  with assms(1) have e: "\<bar>rnd x - x\<bar> \<le> \<bar>x\<bar> / 2 ^ 52 + 1 / 2 ^ 1074"
    by (simp add: double_rounding_def)
  have "\<bar>x\<bar> / 2 ^ 52 \<le> 10 ^ 7 / 2 ^ 52"
    using assms(2,3) by (simp add: divide_right_mono)
  moreover have "(10::real) ^ 7 / 2 ^ 52 + 1 / 2 ^ 1074 \<le> 1" by simp
  ultimately have "\<bar>rnd x - x\<bar> \<le> 1" using e by linarith
  with assms(2) show ?thesis by linarith
qed

lemma resolution_factor:
  assumes "double_rounding rnd"
  shows "1.0376 \<le> rnd (75 / rnd 72.27)" and "rnd (75 / rnd 72.27) \<le> 1.0380"
proof -
  have c: "72.26 \<le> rnd 72.27" "rnd 72.27 \<le> 72.28"
    using rnd_interval [OF assms, of "72.27" "72.27" "72.27"] by simp_all
  have q: "75 / 72.28 \<le> 75 / rnd 72.27" "75 / rnd 72.27 \<le> 75 / 72.26"
    by (rule frac_le; use c in simp)+
  show "1.0376 \<le> rnd (75 / rnd 72.27)" and "rnd (75 / rnd 72.27) \<le> 1.0380"
    using rnd_interval [OF assms _ q] by simp_all
qed

lemma point_factor:
  assumes "double_rounding rnd"
  shows "0.0099998 \<le> rnd (rnd 10 / 1000)" and "rnd (rnd 10 / 1000) \<le> 0.0100002"
proof -
  have p: "9.9999 \<le> rnd 10" "rnd 10 \<le> 10.0001"
    using rnd_interval [OF assms, of "10" "10" "10"] by simp_all
  then have q: "0.0099999 \<le> rnd 10 / 1000" "rnd 10 / 1000 \<le> 0.0100001"
    by simp_all
  show "0.0099998 \<le> rnd (rnd 10 / 1000)" and "rnd (rnd 10 / 1000) \<le> 0.0100002"
    using rnd_interval [OF assms _ q] by simp_all
qed

lemma swidth_of_reference:
  assumes dr: "double_rounding rnd" and cw: "characterWidth m = 10"
  shows "swidth_of rnd 75 (rnd 10) m = Inr 963"
proof -
  let ?a = "rnd (75 / rnd 72.27)" and ?c = "rnd (rnd 10 / 1000)"
  let ?b = "rnd (10 / ?a)"
  let ?d = "rnd (?b / ?c)"
  note a = resolution_factor [OF dr] and c = point_factor [OF dr]
  have c72: "72.26 \<le> rnd 72.27"
    using rnd_interval [OF dr, of "72.27" "72.27" "72.27"] by simp
  have q2: "10 / 1.0380 \<le> 10 / ?a" "10 / ?a \<le> 10 / 1.0376"
    by (rule frac_le; use a in simp)+
  have b: "9.6339 \<le> ?b" "?b \<le> 9.6377"
    using rnd_interval [OF dr _ q2] by simp_all
  have q4: "9.6339 / 0.0100002 \<le> ?b / ?c" "?b / ?c \<le> 9.6377 / 0.0099998"
    by (rule frac_le; use b c in simp)+
  have d: "963 \<le> ?d" "?d < 964"
    using rnd_interval [OF dr _ q4] by simp_all
  then have fl: "\<lfloor>?d\<rfloor> = 963"
    by (simp add: floor_eq_iff)
  have s1: "double_div rnd (real_of_int (sint (75 :: int32))) (rnd 72.27) = Inr ?a"
    using c72 by (simp add: double_div_def)
  have s2: "double_div rnd (real_of_int (sint (characterWidth m))) ?a = Inr ?b"
    using a cw by (simp add: double_div_def)
  have s3: "double_div rnd (rnd 10) 1000 = Inr ?c"
    by (simp add: double_div_def)
  have s4: "double_div rnd ?b ?c = Inr ?d"
    using c by (simp add: double_div_def)
  have s5: "int_of_double ?d = Inr 963"
    using d fl by (simp add: int_of_double_def)
  show ?thesis
    by (simp only: swidth_of_def s1 s2 s3 s4 s5 bindE_Inr)
qed

lemma int_of_double_defined:
  assumes "\<bar>x\<bar> \<le> 2 ^ 30"
  shows "\<exists>w. int_of_double x = Inr w"
proof -
  define k where "k = (if 0 \<le> x then \<lfloor>x\<rfloor> else \<lceil>x\<rceil>)"
  have "real_of_int \<lfloor>x\<rfloor> \<le> x" "x \<le> real_of_int \<lceil>x\<rceil>" by simp_all
  moreover have "0 \<le> x \<Longrightarrow> 0 \<le> \<lfloor>x\<rfloor>" "\<not> 0 \<le> x \<Longrightarrow> \<lceil>x\<rceil> \<le> 0" by simp_all
  ultimately have "\<bar>real_of_int k\<bar> \<le> \<bar>x\<bar>"
    unfolding k_def by (cases "0 \<le> x") simp_all
  with assms have "real_of_int \<bar>k\<bar> \<le> 2 ^ 30" by simp
  then have "\<bar>k\<bar> \<le> 2 ^ 30" by (simp only: of_int_le_numeral_power_cancel_iff)
  then have "- (2 ^ 31) \<le> k \<and> k < 2 ^ 31" by (simp; linarith)
  then show ?thesis
    by (simp add: int_of_double_def Let_def k_def)
qed

lemma swidth_of_defined:
  assumes dr: "double_rounding rnd"
  shows "\<exists>w. swidth_of rnd 75 (rnd 10) m = Inr w"
proof -
  let ?a = "rnd (75 / rnd 72.27)" and ?c = "rnd (rnd 10 / 1000)"
  let ?w = "real_of_int (sint (characterWidth m))"
  let ?b = "rnd (?w / ?a)"
  let ?d = "rnd (?b / ?c)"
  note a = resolution_factor [OF dr] and c = point_factor [OF dr]
  have c72: "72.26 \<le> rnd 72.27"
    using rnd_interval [OF dr, of "72.27" "72.27" "72.27"] by simp
  have "- 32768 \<le> sint (characterWidth m)" "sint (characterWidth m) < 32768"
    using sint_ge [of "characterWidth m"] sint_lt [of "characterWidth m"] by simp_all
  then have w: "\<bar>?w\<bar> \<le> 32768" by linarith
  have "\<bar>?w / ?a\<bar> = \<bar>?w\<bar> / ?a" using a by simp
  moreover have "\<bar>?w\<bar> / ?a \<le> 32768 / 1.0376"
    by (rule frac_le; use w a in simp)
  moreover have "(32768::real) / 1.0376 \<le> 31581" by simp
  ultimately have "\<bar>?w / ?a\<bar> \<le> 31581" by linarith
  from rnd_abs [OF dr this] have b: "\<bar>?b\<bar> \<le> 31582" by simp
  have "\<bar>?b / ?c\<bar> = \<bar>?b\<bar> / ?c" using c by simp
  moreover have "\<bar>?b\<bar> / ?c \<le> 31582 / 0.0099998"
    by (rule frac_le; use b c in simp)
  moreover have "(31582::real) / 0.0099998 \<le> 3158264" by simp
  ultimately have "\<bar>?b / ?c\<bar> \<le> 3158264" by linarith
  from rnd_abs [OF dr this] have "\<bar>?d\<bar> \<le> 3158265" by simp
  then have "\<bar>?d\<bar> \<le> 2 ^ 30" by simp
  from int_of_double_defined [OF this] obtain r where s5: "int_of_double ?d = Inr r" ..
  have s1: "double_div rnd (real_of_int (sint (75 :: int32))) (rnd 72.27) = Inr ?a"
    using c72 by (simp add: double_div_def)
  have s2: "double_div rnd ?w ?a = Inr ?b"
    using a by (simp add: double_div_def)
  have s3: "double_div rnd (rnd 10) 1000 = Inr ?c"
    by (simp add: double_div_def)
  have s4: "double_div rnd ?b ?c = Inr ?d"
    using c by (simp add: double_div_def)
  have "swidth_of rnd 75 (rnd 10) m = Inr r"
    by (simp only: swidth_of_def s1 s2 s3 s4 s5 bindE_Inr)
  then show ?thesis ..
qed

lemma swidths_loop_defined:
  assumes "\<And>m. \<exists>w. swidth_of rnd rx p m = Inr w"
  shows "\<exists>r. swidths_loop rnd rx p ms = Inr r \<and> length r = length ms \<and>
           (\<forall>i<length ms. swidth_of rnd rx p (ms ! i) = Inr (swidth (r ! i)))"
proof (induction ms)
  case Nil
  then show ?case by simp
next
  case (Cons m ms)
  from assms obtain w where w: "swidth_of rnd rx p m = Inr w" by blast
  from Cons.IH obtain r where r: "swidths_loop rnd rx p ms = Inr r" "length r = length ms"
    and nth: "\<forall>i<length ms. swidth_of rnd rx p (ms ! i) = Inr (swidth (r ! i))"
    by blast
  have "swidths_loop rnd rx p (m # ms) = Inr (m\<lparr>swidth := w\<rparr> # r)"
    by (simp add: w r)
  moreover have "\<forall>i<length (m # ms). swidth_of rnd rx p ((m # ms) ! i) =
      Inr (swidth ((m\<lparr>swidth := w\<rparr> # r) ! i))"
    using w nth by (auto simp add: nth_Cons split: nat.splits)
  ultimately show ?case using r(2) by simp
qed


lemma computed_swidths_reference:
  assumes dr: "double_rounding rnd"
    and rx: "get_property_value ''RESOLUTION_X'' props = Inr 75"
    and ps: "get_property_value ''POINT_SIZE'' props = Inr 100"
  shows "\<exists>ms. computed_swidths rnd props metrics = Inr ms \<and> length ms = length metrics \<and>
           (\<forall>i<length metrics. characterWidth (metrics ! i) = 10 \<longrightarrow> swidth (ms ! i) = 963)"
proof -
  have r: "resolution_x rnd props = Inr 75"
    by (simp add: resolution_x_def rx word_sle_eq)
  have c: "computed_swidths rnd props metrics = swidths_loop rnd 75 (rnd 10) metrics"
    by (simp add: computed_swidths_def r ps)
  from swidths_loop_defined [of rnd 75 "rnd 10" metrics, OF swidth_of_defined [OF dr]]
  obtain ms where ms: "swidths_loop rnd 75 (rnd 10) metrics = Inr ms" "length ms = length metrics"
    and nth: "\<forall>i<length metrics. swidth_of rnd 75 (rnd 10) (metrics ! i) = Inr (swidth (ms ! i))"
    by blast
  have "\<forall>i<length metrics. characterWidth (metrics ! i) = 10 \<longrightarrow> swidth (ms ! i) = 963"
  proof (intro allI impI)
    fix i assume "i < length metrics" and "characterWidth (metrics ! i) = 10"
    with nth swidth_of_reference [OF dr, of "metrics ! i"]
    show "swidth (ms ! i) = 963" by simp
  qed
  with c ms show ?thesis by simp
qed

text \<open>
  Claim C6. When the table of contents has no swidths section, \<^verbatim>\<open>RESOLUTION_X\<close> is the
  integer 75 and \<^verbatim>\<open>POINT_SIZE\<close> the integer 100, the swidths section returns, and the
  swidth it computes for every glyph with \<^verbatim>\<open>characterWidth = 10\<close> is 963: the value of
  \<open>characterWidth / (resolutionX / 72.27) / ((pointSizeTenths / 10) / 1000)\<close>, about
  963.6, truncated to an integer. This holds for whatever rounding the \<^verbatim>\<open>double\<close>
  operations apply within \<open>double_rounding\<close>; the exact closed form truncates to 963
  as well.
\<close>

theorem swidth_fallback_reference:
  "double_rounding rnd \<Longrightarrow> find (\<lambda>t. tbl_type t = PCF_SWIDTHS) tables = None \<Longrightarrow>
   get_property_value ''RESOLUTION_X'' props = Inr 75 \<Longrightarrow>
   get_property_value ''POINT_SIZE'' props = Inr 100 \<Longrightarrow>
     (\<exists>ms. swidths_section rnd tables props metrics g = Inr (ms, g) \<and>
        length ms = length metrics \<and>
        (\<forall>i<length metrics. characterWidth (metrics ! i) = 10 \<longrightarrow> swidth (ms ! i) = 963)) \<and>
     int_of_double (10 / (75 / 72.27) / ((100 / 10) / 1000)) = Inr 963"
proof -
  assume dr: "double_rounding rnd"
    and absent: "find (\<lambda>t. tbl_type t = PCF_SWIDTHS) tables = None"
    and rx: "get_property_value ''RESOLUTION_X'' props = Inr 75"
    and ps: "get_property_value ''POINT_SIZE'' props = Inr 100"
  from absent have s: "seek tables PCF_SWIDTHS g = Inr (False, g)"
    by (rule seek_not_found)
  from computed_swidths_reference [OF dr rx ps, of metrics] obtain ms where
    ms: "computed_swidths rnd props metrics = Inr ms" "length ms = length metrics"
      "\<forall>i<length metrics. characterWidth (metrics ! i) = 10 \<longrightarrow> swidth (ms ! i) = 963"
    by blast
  have "swidths_section rnd tables props metrics g = Inr (ms, g)"
    by (simp add: swidths_section_def s ms(1))
  with ms(2,3) have "\<exists>ms. swidths_section rnd tables props metrics g = Inr (ms, g) \<and>
        length ms = length metrics \<and>
        (\<forall>i<length metrics. characterWidth (metrics ! i) = 10 \<longrightarrow> swidth (ms ! i) = 963)"
    by blast
  moreover have "int_of_double (10 / (75 / 72.27) / ((100 / 10) / 1000)) = Inr 963"
    by (simp add: int_of_double_def)
  ultimately show ?thesis by simp
qed

theorem swidth_fallback_reference_witness:
  "swidths_section (\<lambda>x. x) []
     [\<lparr>prop_name = ''RESOLUTION_X'', isStringProp = False, prop_value = V 75\<rparr>,
      \<lparr>prop_name = ''POINT_SIZE'', isStringProp = False, prop_value = V 100\<rparr>]
     [metric_new\<lparr>characterWidth := 10\<rparr>]
     \<lparr>ifp = [], read_bytes = 0, format = BDF_format\<rparr> =
   Inr ([metric_new\<lparr>characterWidth := 10, swidth := 963\<rparr>],
        \<lparr>ifp = [], read_bytes = 0, format = BDF_format\<rparr>)"
proof -
  have dr: "double_rounding (\<lambda>x. x)"
    by (simp add: double_rounding_def)
  have "\<exists>ms. swidths_section (\<lambda>x. x) []
     [\<lparr>prop_name = ''RESOLUTION_X'', isStringProp = False, prop_value = V 75\<rparr>,
      \<lparr>prop_name = ''POINT_SIZE'', isStringProp = False, prop_value = V 100\<rparr>]
     [metric_new\<lparr>characterWidth := 10\<rparr>]
     \<lparr>ifp = [], read_bytes = 0, format = BDF_format\<rparr> =
       Inr (ms, \<lparr>ifp = [], read_bytes = 0, format = BDF_format\<rparr>) \<and>
     length ms = length [metric_new\<lparr>characterWidth := 10\<rparr>] \<and>
     (\<forall>i<length [metric_new\<lparr>characterWidth := 10\<rparr>].
        characterWidth ([metric_new\<lparr>characterWidth := 10\<rparr>] ! i) = 10 \<longrightarrow> swidth (ms ! i) = 963)"
    using swidth_fallback_reference [OF dr, of "[]"
      "[\<lparr>prop_name = ''RESOLUTION_X'', isStringProp = False, prop_value = V 75\<rparr>,
        \<lparr>prop_name = ''POINT_SIZE'', isStringProp = False, prop_value = V 100\<rparr>]"
      "[metric_new\<lparr>characterWidth := 10\<rparr>]" "\<lparr>ifp = [], read_bytes = 0, format = BDF_format\<rparr>"]
    by (simp add: sv_v_def)
  then obtain ms where
    ms: "swidths_section (\<lambda>x. x) []
     [\<lparr>prop_name = ''RESOLUTION_X'', isStringProp = False, prop_value = V 75\<rparr>,
      \<lparr>prop_name = ''POINT_SIZE'', isStringProp = False, prop_value = V 100\<rparr>]
     [metric_new\<lparr>characterWidth := 10\<rparr>]
     \<lparr>ifp = [], read_bytes = 0, format = BDF_format\<rparr> =
       Inr (ms, \<lparr>ifp = [], read_bytes = 0, format = BDF_format\<rparr>)"
    and w: "swidth (ms ! 0) = 963"
    by auto
  have "swidth_of (\<lambda>x. x) 75 10 (metric_new\<lparr>characterWidth := 10\<rparr>) = Inr 963"
    by (simp add: swidth_of_def double_div_def int_of_double_def)
  with ms have "ms = [metric_new\<lparr>characterWidth := 10, swidth := 963\<rparr>]"
    by (simp add: swidths_section_def computed_swidths_def resolution_x_def sv_v_def
        word_sle_eq)
  with ms w show ?thesis by simp
qed

section \<open>The name of the emitted entry\<close>

text \<open>
  \<^verbatim>\<open>fontname\<close> is copied before the period is overwritten, and the overwrite goes to the
  buffer of \<^verbatim>\<open>ifilename\<close>: the name printed is the input filename as it was given.
\<close>

lemma emitted_font_name_whole: "emitted_font_name ifilename = ifilename"
  by (simp add: emitted_font_name_def strip_period_def Let_def split: option.splits)

text \<open>
  Claim C1 asks for the input filename with its final extension stripped. The code
  computes that string, in the buffer of \<^verbatim>\<open>ifilename\<close>, and prints the other buffer:
  for the input path \<^verbatim>\<open>font.pcf\<close> the emitted name is \<^verbatim>\<open>font.pcf\<close>, where the claim
  asks for \<^verbatim>\<open>font\<close>.
\<close>

theorem emitted_font_name_keeps_extension:
  "emitted_font_name ''font.pcf'' = ''font.pcf'' \<and>
   ifilename_buf (strip_period ''font.pcf'') = ''font'' \<and>
   spec_font_name ''font.pcf'' = ''font''"
  by (simp add: emitted_font_name_def strip_period_def spec_font_name_def)

end
